theory Spec2Isabelle
  imports Complex_Main "HOL-Library.Word" "HOL-Library.Multiset"
begin

section \<open>Frame sampling and scene-change detection of the video processor\<close>

text \<open>
  The development embeds the frame-selection engine of \<^verbatim>\<open>utils/videoProcessor\<close>:
  \<^verbatim>\<open>calculateFrameDifference\<close>, \<^verbatim>\<open>detectSceneChanges\<close>, \<^verbatim>\<open>consolidateChanges\<close>,
  \<^verbatim>\<open>generateEqualIntervals\<close>, \<^verbatim>\<open>extractFrames\<close> and the older fixed-interval
  \<^verbatim>\<open>extractFrames\<close>.

  Conventions of the embedding.
  \<^item> A JavaScript \<^verbatim>\<open>number\<close> that holds a time or a score is a \<^typ>\<open>real\<close>. The functions
    are embedded twice: once with exact arithmetic, for the properties of order, spacing and
    counting, and once with every arithmetic result rounded to binary64 (names ending in
    \<open>64\<close>), for the statements about the exact values that are returned. The one place
    where the source can produce \<^verbatim>\<open>NaN\<close> from well-typed arguments (reading a typed array
    beyond its end, and \<^verbatim>\<open>0 / 0\<close> on an empty buffer) is the differencer; its result type
    has \<^verbatim>\<open>NaN\<close> as a value.
  \<^item> \<^verbatim>\<open>maxFrames\<close> and \<^verbatim>\<open>count\<close> are integers (\<^typ>\<open>int\<close>), negative values included.
  \<^item> A \<^verbatim>\<open>Uint8ClampedArray\<close> is a list of bytes.
  \<^item> \<^verbatim>\<open>Array.prototype.sort\<close> with a comparator \<^verbatim>\<open>(a, b) => k(a) - k(b)\<close> is a stable
    sort by the key \<^verbatim>\<open>k\<close>, which is what \<^const>\<open>sort_key\<close> is.
  \<^item> The video element is a record of what the code reads from it: its duration, the
    downsampled raster drawn after a seek to a time, and the encoded still captured at a time.
    The progress callback has no influence on the selected frames and is left out.
\<close>

subsection \<open>Data\<close>

type_synonym byte = "8 word"

datatype number = NaN | Finite real

record changePoint =
  timestamp :: real
  changeScore :: real

record ExtractedFrame = changePoint +
  dataUrl :: string

datatype ExtractionMode = Auto | Manual

record ExtractOptions =
  mode :: ExtractionMode
  maxFrames :: int
  sensitivity :: real

text \<open>\<^verbatim>\<open>Partial<ExtractOptions>\<close>: a key that is absent is \<^const>\<open>None\<close>.\<close>

record PartialOptions =
  p_mode :: "ExtractionMode option"
  p_maxFrames :: "int option"
  p_sensitivity :: "real option"

record video =
  duration :: real
  scanRaster :: "real \<Rightarrow> byte list"
  captureStill :: "real \<Rightarrow> string"

datatype error = VideoLoadError

subsection \<open>Constants\<close>

definition MIN_FRAME_INTERVAL :: real where
  "MIN_FRAME_INTERVAL = 1"

definition SCAN_INTERVAL :: real where
  "SCAN_INTERVAL = 1 / 2"

definition MIN_FRAMES :: nat where
  "MIN_FRAMES = 3"

definition DEFAULT_OPTIONS :: ExtractOptions where
  "DEFAULT_OPTIONS = \<lparr>mode = Auto, maxFrames = 10, sensitivity = 3 / 100\<rparr>"

subsection \<open>JavaScript primitives used by the code\<close>

text \<open>\<^verbatim>\<open>Math.round\<close> rounds halves towards plus infinity.\<close>

definition Math_round :: "real \<Rightarrow> int" where
  "Math_round x = \<lfloor>x + 1 / 2\<rfloor>"

text \<open>\<^verbatim>\<open>xs.slice(0, n)\<close>: a negative \<^verbatim>\<open>n\<close> counts from the end of the array.\<close>

definition slice0 :: "'a list \<Rightarrow> int \<Rightarrow> 'a list" where
  "slice0 xs n = (if n < 0 then take (nat (int (length xs) + n)) xs else take (nat n) xs)"

text \<open>Reading index \<^verbatim>\<open>i\<close> of a typed array gives \<^verbatim>\<open>undefined\<close> beyond its end, and every
  arithmetic operation on \<^verbatim>\<open>undefined\<close> gives \<^verbatim>\<open>NaN\<close>.\<close>

definition px :: "byte list \<Rightarrow> nat \<Rightarrow> number" where
  "px p i = (if i < length p then Finite (real (unat (p ! i))) else NaN)"

fun absDiff :: "number \<Rightarrow> number \<Rightarrow> number" where
  "absDiff (Finite a) (Finite b) = Finite \<bar>a - b\<bar>"
| "absDiff _ _ = NaN"

fun plus_number :: "number \<Rightarrow> number \<Rightarrow> number" where
  "plus_number (Finite a) (Finite b) = Finite (a + b)"
| "plus_number _ _ = NaN"

text \<open>Division by a finite non-zero constant.\<close>

fun div_const :: "number \<Rightarrow> real \<Rightarrow> number" where
  "div_const (Finite a) c = Finite (a / c)"
| "div_const NaN c = NaN"

subsection \<open>Raster differencer\<close>

function diffLoop :: "byte list \<Rightarrow> byte list \<Rightarrow> nat \<Rightarrow> number \<Rightarrow> number" where
  "diffLoop pixels1 pixels2 i totalDiff =
     (if i < length pixels1 then
        (let dr = absDiff (px pixels1 i) (px pixels2 i);
             dg = absDiff (px pixels1 (i + 1)) (px pixels2 (i + 1));
             db = absDiff (px pixels1 (i + 2)) (px pixels2 (i + 2))
         in diffLoop pixels1 pixels2 (i + 4)
              (plus_number totalDiff (div_const (plus_number (plus_number dr dg) db) (3 * 255))))
      else totalDiff)"
  by pat_completeness auto
termination
  by (relation "measure (\<lambda>(pixels1, pixels2, i, totalDiff). length pixels1 - i)") auto

declare diffLoop.simps [simp del]

text \<open>The final division \<^verbatim>\<open>totalDiff / pixelCount\<close>: \<^verbatim>\<open>pixelCount\<close> is zero only for an empty
  first buffer, where the loop has not run, \<^verbatim>\<open>totalDiff\<close> is still \<^verbatim>\<open>0\<close> and \<^verbatim>\<open>0 / 0\<close> is
  \<^verbatim>\<open>NaN\<close>.\<close>

definition calculateFrameDifference :: "byte list \<Rightarrow> byte list \<Rightarrow> number" where
  "calculateFrameDifference pixels1 pixels2 =
     (let pixelCount = real (length pixels1) / 4
      in case diffLoop pixels1 pixels2 0 (Finite 0) of
           NaN \<Rightarrow> NaN
         | Finite totalDiff \<Rightarrow> if pixelCount = 0 then NaN else Finite (totalDiff / pixelCount))"

subsection \<open>Scan sampler\<close>

definition scanTime :: "real \<Rightarrow> int \<Rightarrow> real" where
  "scanTime d i = min (real_of_int i * SCAN_INTERVAL) (d - 1 / 100)"

text \<open>One pass of the loop body for every index; the state is the list of changes so far and
  the previous raster (\<^const>\<open>None\<close> is the initial \<^verbatim>\<open>null\<close>; a typed array is always truthy).
  A \<^verbatim>\<open>NaN\<close> score fails the comparison \<^verbatim>\<open>diff >= sensitivity\<close>.\<close>

fun scanLoop ::
  "video \<Rightarrow> real \<Rightarrow> int list \<Rightarrow> byte list option \<Rightarrow> changePoint list \<Rightarrow> changePoint list" where
  "scanLoop v sens [] previousPixels changes = changes"
| "scanLoop v sens (i # is) previousPixels changes =
     (let time = scanTime (duration v) i;
          currentPixels = scanRaster v time;
          changes' =
            (case previousPixels of
               None \<Rightarrow> changes
             | Some prev \<Rightarrow>
                 (case calculateFrameDifference prev currentPixels of
                    NaN \<Rightarrow> changes
                  | Finite diff \<Rightarrow>
                      if diff \<ge> sens
                      then changes @ [\<lparr>timestamp = time, changeScore = diff\<rparr>]
                      else changes))
      in scanLoop v sens is (Some currentPixels) changes')"

definition totalScans :: "real \<Rightarrow> int" where
  "totalScans d = \<lfloor>d / SCAN_INTERVAL\<rfloor>"

definition detectSceneChanges :: "video \<Rightarrow> real \<Rightarrow> changePoint list" where
  "detectSceneChanges v sens = scanLoop v sens [0..totalScans (duration v)] None []"

subsection \<open>Change consolidator\<close>

fun mergeLoop :: "changePoint list \<Rightarrow> changePoint list \<Rightarrow> changePoint list" where
  "mergeLoop merged [] = merged"
| "mergeLoop merged (c # cs) =
     (let lst = last merged
      in mergeLoop
           (if timestamp c - timestamp lst < MIN_FRAME_INTERVAL
            then (if changeScore c > changeScore lst
                  then merged[length merged - 1 := c]
                  else merged)
            else merged @ [c])
           cs)"

definition consolidateChanges :: "changePoint list \<Rightarrow> int \<Rightarrow> changePoint list" where
  "consolidateChanges changes maxFrames' =
     (case changes of
        [] \<Rightarrow> []
      | c0 # rest \<Rightarrow>
          (let merged = mergeLoop [c0] rest
           in if int (length merged) \<le> maxFrames' then merged
              else sort_key timestamp
                     (slice0 (sort_key (\<lambda>p. - changeScore p) merged) maxFrames')))"

subsection \<open>Fallback interval generator\<close>

definition generateEqualIntervals :: "real \<Rightarrow> int \<Rightarrow> changePoint list" where
  "generateEqualIntervals d count' =
     (let interval = d / real_of_int (count' + 1)
      in map (\<lambda>i. \<lparr>timestamp = real_of_int i * interval, changeScore = 0\<rparr>) [1..count'])"

subsection \<open>Orchestrator\<close>

definition resolveOptions :: "PartialOptions \<Rightarrow> ExtractOptions" where
  "resolveOptions po =
     \<lparr>mode = (case p_mode po of None \<Rightarrow> mode DEFAULT_OPTIONS | Some m \<Rightarrow> m),
      maxFrames = (case p_maxFrames po of None \<Rightarrow> maxFrames DEFAULT_OPTIONS | Some n \<Rightarrow> n),
      sensitivity =
        (case p_sensitivity po of None \<Rightarrow> sensitivity DEFAULT_OPTIONS | Some s \<Rightarrow> s)\<rparr>"

definition backfill :: "changePoint list \<Rightarrow> real \<Rightarrow> int \<Rightarrow> changePoint list" where
  "backfill frameTimestamps d maxFrames' =
     (let equalFrames = generateEqualIntervals d maxFrames';
          existingTimes = set (map (\<lambda>f. Math_round (timestamp f * 10)) frameTimestamps);
          pushed = frameTimestamps
                   @ filter (\<lambda>eq. Math_round (timestamp eq * 10) \<notin> existingTimes) equalFrames
      in slice0 (sort_key timestamp pushed) maxFrames')"

definition selectTimestamps :: "video \<Rightarrow> ExtractOptions \<Rightarrow> changePoint list" where
  "selectTimestamps v opts =
     (if mode opts = Auto then
        (let rawChanges = detectSceneChanges v (sensitivity opts);
             frameTimestamps = consolidateChanges rawChanges (maxFrames opts)
         in if length frameTimestamps < MIN_FRAMES
            then backfill frameTimestamps (duration v) (maxFrames opts)
            else frameTimestamps)
      else generateEqualIntervals (duration v) (maxFrames opts))"

definition captureFrames :: "video \<Rightarrow> changePoint list \<Rightarrow> ExtractedFrame list" where
  "captureFrames v frameTimestamps =
     map (\<lambda>f. \<lparr>timestamp = timestamp f, changeScore = changeScore f,
               dataUrl = captureStill v (timestamp f)\<rparr>) frameTimestamps"

text \<open>The file either loads (\<^verbatim>\<open>onloadedmetadata\<close>) or the element reports an error
  (\<^verbatim>\<open>onerror\<close>, the promise is rejected).\<close>

definition extractFrames :: "video option \<Rightarrow> PartialOptions \<Rightarrow> error + ExtractedFrame list" where
  "extractFrames videoFile options' =
     (let opts = resolveOptions options'
      in case videoFile of
           None \<Rightarrow> Inl VideoLoadError
         | Some v \<Rightarrow> Inr (captureFrames v (selectTimestamps v opts)))"

subsection \<open>The older fixed-interval extractor\<close>

text \<open>\<^verbatim>\<open>ctx\<close> is the 2D context of the capture canvas; a frame is pushed only when it is not
  \<^verbatim>\<open>null\<close>. An omitted \<^verbatim>\<open>count\<close> argument (\<^const>\<open>None\<close>) is \<open>5\<close>. The result carries no
  score.\<close>

definition legacyExtractFrames ::
  "video option \<Rightarrow> bool \<Rightarrow> int option \<Rightarrow> error + (real \<times> string) list" where
  "legacyExtractFrames videoFile ctx countArg =
     (case videoFile of
        None \<Rightarrow> Inl VideoLoadError
      | Some v \<Rightarrow>
          (let count' = (case countArg of None \<Rightarrow> 5 | Some n \<Rightarrow> n);
               interval = duration v / real_of_int (count' + 1)
           in Inr (concat (map (\<lambda>i. let time = real_of_int i * interval
                                     in if ctx then [(time, captureStill v time)] else [])
                               [1..count']))))"

subsection \<open>The score as the specification writes it\<close>

text \<open>Channel \<open>c\<close> (0 red, 1 green, 2 blue, 3 alpha) of pixel \<open>k\<close> of an RGBA buffer, and the
  sum \<open>|\<Delta>r| + |\<Delta>g| + |\<Delta>b|\<close> of one pixel.\<close>

definition channel :: "byte list \<Rightarrow> nat \<Rightarrow> nat \<Rightarrow> real" where
  "channel p k c = real (unat (p ! (4 * k + c)))"

definition pixelDiff :: "byte list \<Rightarrow> byte list \<Rightarrow> nat \<Rightarrow> real" where
  "pixelDiff p1 p2 k =
     \<bar>channel p1 k 0 - channel p2 k 0\<bar> + \<bar>channel p1 k 1 - channel p2 k 1\<bar>
       + \<bar>channel p1 k 2 - channel p2 k 2\<bar>"

subsection \<open>The scan sampler as the specification describes it\<close>

text \<open>The score of scan step \<open>i\<close> against the raster of step \<open>i - 1\<close>, the comparison
  \<^verbatim>\<open>diff >= sensitivity\<close> on a possibly-\<^verbatim>\<open>NaN\<close> score, and the change point of step \<open>i\<close>.\<close>

definition scanScore :: "video \<Rightarrow> int \<Rightarrow> number" where
  "scanScore v i =
     calculateFrameDifference (scanRaster v (scanTime (duration v) (i - 1)))
       (scanRaster v (scanTime (duration v) i))"

fun reaches :: "number \<Rightarrow> real \<Rightarrow> bool" where
  "reaches (Finite d) s = (s \<le> d)"
| "reaches NaN s = False"

fun scoreOf :: "number \<Rightarrow> real" where
  "scoreOf (Finite d) = d"
| "scoreOf NaN = 0"

definition emitted :: "video \<Rightarrow> int \<Rightarrow> changePoint" where
  "emitted v i = \<lparr>timestamp = scanTime (duration v) i, changeScore = scoreOf (scanScore v i)\<rparr>"

subsection \<open>Spacing of consolidated points\<close>

text \<open>\<open>q\<close> lies at least the minimum frame interval after \<open>p\<close>.\<close>

definition gap :: "changePoint \<Rightarrow> changePoint \<Rightarrow> bool" where
  "gap p q = (timestamp p + MIN_FRAME_INTERVAL \<le> timestamp q)"

text \<open>The key of the backfill deduplication: the timestamp rounded to one decimal place,
  as the integer number of tenths.\<close>

definition tenth :: "changePoint \<Rightarrow> int" where
  "tenth p = Math_round (timestamp p * 10)"

subsection \<open>Binary64 arithmetic\<close>

text \<open>
  A JavaScript \<^verbatim>\<open>number\<close> is an IEEE 754 binary64 value, and every arithmetic operation
  returns the exact result rounded to the nearest such value, ties to the even significand.
  \<open>fl x\<close> is that rounding of the real \<open>x\<close>: the significand has 53 bits, the exponent of a
  normal number is at least \<open>-1022\<close>, and below that the spacing stays \<open>2 powi (-1074)\<close>
  (gradual underflow). \<open>expo k x\<close> finds the binary exponent of a positive \<open>x\<close> by halving
  or doubling at most \<open>k\<close> times. A result of magnitude \<open>2 powi 1024\<close> or more, which the
  machine turns into \<^verbatim>\<open>Infinity\<close>, is not represented; the statements below carry the bounds
  that exclude it.
\<close>

definition round_even :: "real \<Rightarrow> int" where
  "round_even x =
     (let f = \<lfloor>x\<rfloor>; r = x - of_int f
      in if r < 1 / 2 then f else if 1 / 2 < r then f + 1 else if even f then f else f + 1)"

function expo :: "nat \<Rightarrow> real \<Rightarrow> int" where
  "expo k x =
     (if k = 0 then 0
      else if 2 \<le> x then expo (k - 1) (x / 2) + 1
      else if x < 1 then expo (k - 1) (2 * x) - 1
      else 0)"
  by pat_completeness auto
termination
  by (relation "measure (\<lambda>(k, x). k)") auto

declare expo.simps [simp del]

definition fl :: "real \<Rightarrow> real" where
  "fl x =
     (if x = 0 then 0
      else (let e = max (expo 1100 \<bar>x\<bar>) (- 1022);
                q = 2 powi (e - 52)
            in sgn x * (of_int (round_even (\<bar>x\<bar> / q)) * q)))"

subsection \<open>The same functions in binary64 arithmetic\<close>

text \<open>
  The functions of the engine once more, with the result of every subtraction, addition,
  multiplication and division rounded by \<open>fl\<close>, in the order in which the code performs
  them. \<^verbatim>\<open>Math.abs\<close>, \<^verbatim>\<open>Math.min\<close>, \<^verbatim>\<open>Math.floor\<close>, \<^verbatim>\<open>Math.round\<close> and the
  comparisons are exact on their arguments; a comparator \<^verbatim>\<open>(a, b) => k(a) - k(b)\<close> has the
  sign of the exact difference, so the sorts are the same stable sorts. The literal
  \<^verbatim>\<open>0.01\<close> is \<open>fl (1 / 100)\<close>; \<^verbatim>\<open>0.5\<close>, \<^verbatim>\<open>1.0\<close>, \<^verbatim>\<open>10\<close> and \<^verbatim>\<open>3 * 255\<close> are exact.
\<close>

fun absDiff64 :: "number \<Rightarrow> number \<Rightarrow> number" where
  "absDiff64 (Finite a) (Finite b) = Finite \<bar>fl (a - b)\<bar>"
| "absDiff64 _ _ = NaN"

fun plus64 :: "number \<Rightarrow> number \<Rightarrow> number" where
  "plus64 (Finite a) (Finite b) = Finite (fl (a + b))"
| "plus64 _ _ = NaN"

fun div_const64 :: "number \<Rightarrow> real \<Rightarrow> number" where
  "div_const64 (Finite a) c = Finite (fl (a / c))"
| "div_const64 NaN c = NaN"

function diffLoop64 :: "byte list \<Rightarrow> byte list \<Rightarrow> nat \<Rightarrow> number \<Rightarrow> number" where
  "diffLoop64 pixels1 pixels2 i totalDiff =
     (if i < length pixels1 then
        (let dr = absDiff64 (px pixels1 i) (px pixels2 i);
             dg = absDiff64 (px pixels1 (i + 1)) (px pixels2 (i + 1));
             db = absDiff64 (px pixels1 (i + 2)) (px pixels2 (i + 2))
         in diffLoop64 pixels1 pixels2 (i + 4)
              (plus64 totalDiff (div_const64 (plus64 (plus64 dr dg) db) (3 * 255))))
      else totalDiff)"
  by pat_completeness auto
termination
  by (relation "measure (\<lambda>(pixels1, pixels2, i, totalDiff). length pixels1 - i)") auto

declare diffLoop64.simps [simp del]

definition calculateFrameDifference64 :: "byte list \<Rightarrow> byte list \<Rightarrow> number" where
  "calculateFrameDifference64 pixels1 pixels2 =
     (let pixelCount = fl (real (length pixels1) / 4)
      in case diffLoop64 pixels1 pixels2 0 (Finite 0) of
           NaN \<Rightarrow> NaN
         | Finite totalDiff \<Rightarrow>
             if pixelCount = 0 then NaN else Finite (fl (totalDiff / pixelCount)))"

definition scanTime64 :: "real \<Rightarrow> int \<Rightarrow> real" where
  "scanTime64 d i = min (fl (real_of_int i * SCAN_INTERVAL)) (fl (d - fl (1 / 100)))"

fun scanLoop64 ::
  "video \<Rightarrow> real \<Rightarrow> int list \<Rightarrow> byte list option \<Rightarrow> changePoint list \<Rightarrow> changePoint list" where
  "scanLoop64 v sens [] previousPixels changes = changes"
| "scanLoop64 v sens (i # is) previousPixels changes =
     (let time = scanTime64 (duration v) i;
          currentPixels = scanRaster v time;
          changes' =
            (case previousPixels of
               None \<Rightarrow> changes
             | Some prev \<Rightarrow>
                 (case calculateFrameDifference64 prev currentPixels of
                    NaN \<Rightarrow> changes
                  | Finite diff \<Rightarrow>
                      if diff \<ge> sens
                      then changes @ [\<lparr>timestamp = time, changeScore = diff\<rparr>]
                      else changes))
      in scanLoop64 v sens is (Some currentPixels) changes')"

definition totalScans64 :: "real \<Rightarrow> int" where
  "totalScans64 d = \<lfloor>fl (d / SCAN_INTERVAL)\<rfloor>"

definition detectSceneChanges64 :: "video \<Rightarrow> real \<Rightarrow> changePoint list" where
  "detectSceneChanges64 v sens = scanLoop64 v sens [0..totalScans64 (duration v)] None []"

fun mergeLoop64 :: "changePoint list \<Rightarrow> changePoint list \<Rightarrow> changePoint list" where
  "mergeLoop64 merged [] = merged"
| "mergeLoop64 merged (c # cs) =
     (let lst = last merged
      in mergeLoop64
           (if fl (timestamp c - timestamp lst) < MIN_FRAME_INTERVAL
            then (if changeScore c > changeScore lst
                  then merged[length merged - 1 := c]
                  else merged)
            else merged @ [c])
           cs)"

definition consolidateChanges64 :: "changePoint list \<Rightarrow> int \<Rightarrow> changePoint list" where
  "consolidateChanges64 changes maxFrames' =
     (case changes of
        [] \<Rightarrow> []
      | c0 # rest \<Rightarrow>
          (let merged = mergeLoop64 [c0] rest
           in if int (length merged) \<le> maxFrames' then merged
              else sort_key timestamp
                     (slice0 (sort_key (\<lambda>p. - changeScore p) merged) maxFrames')))"

definition generateEqualIntervals64 :: "real \<Rightarrow> int \<Rightarrow> changePoint list" where
  "generateEqualIntervals64 d count' =
     (let interval = fl (d / fl (real_of_int count' + 1))
      in map (\<lambda>i. \<lparr>timestamp = fl (real_of_int i * interval), changeScore = 0\<rparr>) [1..count'])"

definition backfill64 :: "changePoint list \<Rightarrow> real \<Rightarrow> int \<Rightarrow> changePoint list" where
  "backfill64 frameTimestamps d maxFrames' =
     (let equalFrames = generateEqualIntervals64 d maxFrames';
          existingTimes = set (map (\<lambda>f. Math_round (fl (timestamp f * 10))) frameTimestamps);
          pushed = frameTimestamps
                   @ filter (\<lambda>eq. Math_round (fl (timestamp eq * 10)) \<notin> existingTimes) equalFrames
      in slice0 (sort_key timestamp pushed) maxFrames')"

definition selectTimestamps64 :: "video \<Rightarrow> ExtractOptions \<Rightarrow> changePoint list" where
  "selectTimestamps64 v opts =
     (if mode opts = Auto then
        (let rawChanges = detectSceneChanges64 v (sensitivity opts);
             frameTimestamps = consolidateChanges64 rawChanges (maxFrames opts)
         in if length frameTimestamps < MIN_FRAMES
            then backfill64 frameTimestamps (duration v) (maxFrames opts)
            else frameTimestamps)
      else generateEqualIntervals64 (duration v) (maxFrames opts))"

definition extractFrames64 :: "video option \<Rightarrow> PartialOptions \<Rightarrow> error + ExtractedFrame list" where
  "extractFrames64 videoFile options' =
     (let opts = resolveOptions options'
      in case videoFile of
           None \<Rightarrow> Inl VideoLoadError
         | Some v \<Rightarrow> Inr (captureFrames v (selectTimestamps64 v opts)))"

text \<open>The running total \<^verbatim>\<open>totalDiff\<close> of the differencer after \<open>k\<close> pixels of two buffers
  of the same size.\<close>

fun acc64 :: "byte list \<Rightarrow> byte list \<Rightarrow> nat \<Rightarrow> real" where
  "acc64 p1 p2 0 = 0"
| "acc64 p1 p2 (Suc k) = fl (acc64 p1 p2 k + fl (pixelDiff p1 p2 k / (3 * 255)))"

subsection \<open>Concrete inputs\<close>

definition demoVideo :: video where
  "demoVideo = \<lparr>duration = 12, scanRaster = (\<lambda>t. []), captureStill = (\<lambda>t. [])\<rparr>"

definition demoManual :: PartialOptions where
  "demoManual = \<lparr>p_mode = Some Manual, p_maxFrames = Some 3, p_sensitivity = None\<rparr>"

definition demoScan :: video where
  "demoScan = \<lparr>duration = 2,
                scanRaster = (\<lambda>t. if t < 1 then [0, 0, 0, 255] else [255, 255, 255, 255]),
                captureStill = (\<lambda>t. [])\<rparr>"

definition demoChanges :: "changePoint list" where
  "demoChanges =
     [\<lparr>timestamp = 1 / 2, changeScore = 2 / 10\<rparr>, \<lparr>timestamp = 1, changeScore = 5 / 10\<rparr>,
      \<lparr>timestamp = 3 / 2, changeScore = 1 / 10\<rparr>, \<lparr>timestamp = 2, changeScore = 3 / 10\<rparr>,
      \<lparr>timestamp = 7 / 2, changeScore = 9 / 10\<rparr>]"

definition demoAuto :: PartialOptions where
  "demoAuto = \<lparr>p_mode = None, p_maxFrames = Some 2, p_sensitivity = Some (1 / 10)\<rparr>"

definition unitVideo :: video where
  "unitVideo = \<lparr>duration = 1, scanRaster = (\<lambda>t. []), captureStill = (\<lambda>t. [])\<rparr>"

definition nineManual :: PartialOptions where
  "nineManual = \<lparr>p_mode = Some Manual, p_maxFrames = Some 9, p_sensitivity = None\<rparr>"

definition demoRasterA :: "byte list" where
  "demoRasterA = [0, 0, 0, 255, 255, 255, 255, 255, 255, 255, 195, 255, 60, 0, 0, 255]"

definition demoRasterB :: "byte list" where
  "demoRasterB = [0, 0, 0, 255, 0, 0, 0, 255, 0, 0, 0, 255, 0, 0, 0, 255]"

section \<open>Fallback interval generator and manual mode\<close>


lemma timestamp_captureFrames: "map timestamp (captureFrames v ts) = map timestamp ts"
  by (simp add: captureFrames_def o_def)

lemma length_captureFrames: "length (captureFrames v ts) = length ts"
  by (simp add: captureFrames_def)





text \<open>
  Claim C10. The older fixed-interval extractor and manual mode select the same timestamps:
  for a count \<open>N\<close> the older function (with a drawing context available) samples at
  \<open>i \<cdot> D/(N+1)\<close> for \<open>i = 1..N\<close>, which are the timestamps of \<open>generateEqualIntervals D N\<close>
  and of the frames that manual mode returns; the captured stills agree as well.
\<close>

theorem legacy_same_timestamps:
  assumes "legacyExtractFrames (Some v) True (Some N) = Inr legacy"
    and "extractFrames (Some v) po = Inr frames"
    and "mode (resolveOptions po) = Manual" and "maxFrames (resolveOptions po) = N"
  shows "map fst legacy = map (\<lambda>i. real_of_int i * (duration v / real_of_int (N + 1))) [1..N]
       \<and> map fst legacy = map timestamp (generateEqualIntervals (duration v) N)
       \<and> map fst legacy = map timestamp frames
       \<and> map snd legacy = map dataUrl frames"
proof -
  from assms(1) have l: "legacy = map (\<lambda>i. (real_of_int i * (duration v / real_of_int (N + 1)),
       captureStill v (real_of_int i * (duration v / real_of_int (N + 1))))) [1..N]"
    by (simp add: legacyExtractFrames_def Let_def)
  from assms(2-4) have fr: "frames = captureFrames v (generateEqualIntervals (duration v) N)"
    by (simp add: extractFrames_def selectTimestamps_def)
  show ?thesis
    by (simp add: l fr captureFrames_def generateEqualIntervals_def o_def)
qed

theorem legacy_same_timestamps_witness:
  "\<exists>legacy frames. legacyExtractFrames (Some demoVideo) True (Some 3) = Inr legacy
     \<and> extractFrames (Some demoVideo) demoManual = Inr frames
     \<and> mode (resolveOptions demoManual) = Manual
     \<and> maxFrames (resolveOptions demoManual) = 3
     \<and> map fst legacy = [3, 6, 9]
     \<and> map fst legacy = map timestamp frames"
proof -
  obtain legacy where l: "legacyExtractFrames (Some demoVideo) True (Some 3) = Inr legacy"
    by (simp add: legacyExtractFrames_def)
  obtain frames where e: "extractFrames (Some demoVideo) demoManual = Inr frames"
    by (simp add: extractFrames_def)
  have m: "mode (resolveOptions demoManual) = Manual"
    by (simp add: resolveOptions_def demoManual_def)
  have n: "maxFrames (resolveOptions demoManual) = 3"
    by (simp add: resolveOptions_def demoManual_def)
  note th = legacy_same_timestamps [OF l e m n]
  from th have "map fst legacy = [3, 6, 9]"
    by (simp add: upto_rec1 demoVideo_def)
  moreover from th have "map fst legacy = map timestamp frames"
    by (elim conjE)
  ultimately show ?thesis using l e m n by (intro exI [of _ legacy] exI [of _ frames]) simp
qed

section \<open>Raster differencer\<close>

lemma channel_bounds: "0 \<le> channel p k c" "channel p k c \<le> 255"
proof -
  show "0 \<le> channel p k c" by (simp only: channel_def of_nat_0_le_iff)
  have "unat (p ! (4 * k + c)) < 2 ^ 8"
    using unsigned_less [of "p ! (4 * k + c)", where ?'a = nat] by simp
  then have "unat (p ! (4 * k + c)) \<le> 255" by simp
  then have "real (unat (p ! (4 * k + c))) \<le> real 255" by (simp only: of_nat_le_iff)
  then show "channel p k c \<le> 255" by (simp only: channel_def of_nat_numeral)
qed

lemma pixelDiff_bounds: "0 \<le> pixelDiff p1 p2 k" "pixelDiff p1 p2 k \<le> 3 * 255"
proof -
  show "0 \<le> pixelDiff p1 p2 k" by (simp add: pixelDiff_def)
  have "\<bar>channel p1 k c - channel p2 k c\<bar> \<le> 255" for c
    using channel_bounds [of p1 k c] channel_bounds [of p2 k c] by linarith
  from this [of 0] this [of 1] this [of 2]
  show "pixelDiff p1 p2 k \<le> 3 * 255" by (simp add: pixelDiff_def)
qed

lemma diffLoop_NaN: "diffLoop p1 p2 i NaN = NaN"
  by (induction p1 p2 i NaN rule: diffLoop.induct) (subst diffLoop.simps, simp add: Let_def)

lemma diffLoop_step:
  assumes "4 * k + 3 < length p1" "4 * k + 2 < length p2"
  shows "diffLoop p1 p2 (4 * k) (Finite t)
       = diffLoop p1 p2 (4 * Suc k) (Finite (t + pixelDiff p1 p2 k / (3 * 255)))"
  using assms
  by (subst diffLoop.simps) (simp add: px_def pixelDiff_def channel_def Let_def add.commute)

lemma diffLoop_sum:
  assumes "length p1 = 4 * P" "length p1 \<le> length p2" "k \<le> P"
  shows "diffLoop p1 p2 (4 * k) (Finite t)
       = Finite (t + (\<Sum>j = k..<P. pixelDiff p1 p2 j / (3 * 255)))"
  using assms(3)
proof (induction "P - k" arbitrary: k t)
  case 0
  then have "k = P" by simp
  then show ?case using assms(1) by (subst diffLoop.simps) simp
next
  case (Suc n)
  then have k: "k < P" "n = P - Suc k" "Suc k \<le> P" by simp_all
  have "diffLoop p1 p2 (4 * k) (Finite t)
      = diffLoop p1 p2 (4 * Suc k) (Finite (t + pixelDiff p1 p2 k / (3 * 255)))"
    using assms(1,2) k(1) by (intro diffLoop_step) simp_all
  also have "\<dots> = Finite (t + pixelDiff p1 p2 k / (3 * 255)
                        + (\<Sum>j = Suc k..<P. pixelDiff p1 p2 j / (3 * 255)))"
    by (rule Suc.hyps(1) [OF k(2) k(3)])
  also have "\<dots> = Finite (t + (\<Sum>j = k..<P. pixelDiff p1 p2 j / (3 * 255)))"
    using k(1) by (simp add: sum.atLeast_Suc_lessThan)
  finally show ?case .
qed

lemma diffLoop_short:
  assumes "length p1 = 4 * P" "length p2 = 4 * Q" "Q < P" "k \<le> Q"
  shows "diffLoop p1 p2 (4 * k) t = NaN"
  using assms(4)
proof (induction "Q - k" arbitrary: k t)
  case 0
  then have "k = Q" by simp
  then show ?case using assms(1-3)
    by (subst diffLoop.simps) (simp add: px_def Let_def diffLoop_NaN)
next
  case (Suc n)
  then have k: "k < Q" "n = Q - Suc k" "Suc k \<le> Q" by simp_all
  show ?case
  proof (cases t)
    case NaN
    then show ?thesis by (simp add: diffLoop_NaN)
  next
    case (Finite r)
    have "diffLoop p1 p2 (4 * k) (Finite r)
        = diffLoop p1 p2 (4 * Suc k) (Finite (r + pixelDiff p1 p2 k / (3 * 255)))"
      using assms(1-3) k(1) by (intro diffLoop_step) simp_all
    then show ?thesis using Suc.hyps(1) [OF k(2) k(3)] Finite by simp
  qed
qed

lemma calculateFrameDifference_sum:
  assumes "length p1 = 4 * P" "length p1 \<le> length p2" "0 < P"
  shows "calculateFrameDifference p1 p2
       = Finite ((\<Sum>k < P. pixelDiff p1 p2 k) / (3 * 255 * real P))"
proof -
  have "diffLoop p1 p2 (4 * 0) (Finite 0)
      = Finite (0 + (\<Sum>j = 0..<P. pixelDiff p1 p2 j / (3 * 255)))"
    using assms(1,2) by (intro diffLoop_sum) simp_all
  then have "diffLoop p1 p2 0 (Finite 0) = Finite ((\<Sum>k < P. pixelDiff p1 p2 k) / (3 * 255))"
    by (simp add: sum_divide_distrib atLeast0LessThan)
  then show ?thesis
    using assms(1,3) by (simp add: calculateFrameDifference_def)
qed

text \<open>
  Claim C6, as stated, asks for an error whenever the two buffers differ in size. The
  function has no size check and no \<^verbatim>\<open>throw\<close>: on a one-pixel buffer against a two-pixel
  buffer it returns the ordinary score \<open>1\<close>.
\<close>

theorem differencer_mismatch_counterexample:
  "length [0, 0, 0, 0 :: byte] \<noteq> length [255, 255, 255, 7, 9, 9, 9, 9 :: byte]
   \<and> calculateFrameDifference [0, 0, 0, 0] [255, 255, 255, 7, 9, 9, 9, 9] = Finite 1"
  by (simp add: calculateFrameDifference_def diffLoop.simps px_def)

text \<open>
  Claim C6, amended. For RGBA buffers of different sizes (\<open>P\<close> and \<open>Q\<close> pixels) the
  differencer raises nothing and returns a number: \<^verbatim>\<open>NaN\<close> when the second buffer is the
  smaller one (a channel is read beyond its end) or the first is empty, and otherwise the
  score of the first buffer against the leading \<open>P\<close> pixels of the second.
\<close>

theorem differencer_mismatch_returns:
  assumes "length pixels1 = 4 * P" and "length pixels2 = 4 * Q" and "P \<noteq> Q"
  shows "calculateFrameDifference pixels1 pixels2 =
           (if Q < P \<or> P = 0 then NaN
            else Finite ((\<Sum>k < P. pixelDiff pixels1 pixels2 k) / (3 * 255 * real P)))"
proof -
  consider "Q < P" | "P = 0" | "0 < P" "P < Q" using assms(3) by linarith
  then show ?thesis
  proof cases
    case 1
    have "diffLoop pixels1 pixels2 (4 * 0) (Finite 0) = NaN"
      using assms(1,2) 1 by (rule diffLoop_short) simp
    then show ?thesis using 1 by (simp add: calculateFrameDifference_def)
  next
    case 2
    then have "diffLoop pixels1 pixels2 0 (Finite 0) = Finite 0"
      using assms(1) by (subst diffLoop.simps) simp
    then show ?thesis using 2 assms(1) by (simp add: calculateFrameDifference_def)
  next
    case 3
    then show ?thesis using assms by (simp add: calculateFrameDifference_sum)
  qed
qed

theorem differencer_mismatch_returns_witness:
  "length [1, 2, 3, 4, 5, 6, 7, 8 :: byte] = 4 * 2 \<and> length [1, 2, 3, 4 :: byte] = 4 * 1
   \<and> calculateFrameDifference [1, 2, 3, 4, 5, 6, 7, 8] [1, 2, 3, 4] = NaN"
  using differencer_mismatch_returns [of "[1, 2, 3, 4, 5, 6, 7, 8]" 2 "[1, 2, 3, 4]" 1]
  by simp

section \<open>Scan sampler\<close>

lemma scanLoop_upto:
  "scanLoop v sens [a..b] (Some (scanRaster v (scanTime (duration v) (a - 1)))) changes
     = changes @ map (emitted v) (filter (\<lambda>i. reaches (scanScore v i) sens) [a..b])"
proof (induction a b arbitrary: changes rule: upto.induct)
  case (1 a b)
  show ?case
  proof (cases "a \<le> b")
    case False
    then show ?thesis by simp
  next
    case True
    then have u: "[a..b] = a # [a + 1..b]" by (rule upto_rec1)
    note ih = "1.IH" [OF True, simplified]
    show ?thesis
      unfolding u
      by (cases "scanScore v a")
         (simp_all add: ih Let_def emitted_def, simp_all add: scanScore_def emitted_def)
  qed
qed

lemma detectSceneChanges_filter:
  "detectSceneChanges v sens
     = map (emitted v) (filter (\<lambda>i. reaches (scanScore v i) sens) [1..totalScans (duration v)])"
proof (cases "0 \<le> totalScans (duration v)")
  case False
  then show ?thesis by (simp add: detectSceneChanges_def)
next
  case True
  then have u: "[0..totalScans (duration v)] = 0 # [1..totalScans (duration v)]"
    by (simp add: upto_rec1)
  show ?thesis
    using scanLoop_upto [of v sens 1 "totalScans (duration v)" "[]"]
    by (simp add: detectSceneChanges_def u Let_def)
qed

lemma totalScans_le: "real_of_int (totalScans d) \<le> 2 * d"
proof -
  have "real_of_int \<lfloor>d * 2\<rfloor> \<le> d * 2" by (rule of_int_floor_le)
  then show ?thesis by (simp add: totalScans_def SCAN_INTERVAL_def mult.commute)
qed

lemma scanTime_inner:
  assumes "i < j" "j \<le> totalScans d"
  shows "scanTime d i = real_of_int i / 2" and "scanTime d i < scanTime d j"
proof -
  have "real_of_int j \<le> 2 * d" using assms(2) totalScans_le [of d] by linarith
  moreover have "real_of_int i + 1 \<le> real_of_int j" using assms(1) by linarith
  ultimately have a: "real_of_int i / 2 < d - 1 / 100" by linarith
  then show b: "scanTime d i = real_of_int i / 2"
    by (simp add: scanTime_def SCAN_INTERVAL_def)
  have "real_of_int i / 2 < real_of_int j / 2" using assms(1) by simp
  with a show "scanTime d i < scanTime d j"
    unfolding b by (simp add: scanTime_def SCAN_INTERVAL_def)
qed


lemma detectSceneChanges_strict:
  "sorted_wrt (<) (map timestamp (detectSceneChanges v sens))"
proof -
  let ?T = "totalScans (duration v)"
  let ?is = "filter (\<lambda>i. reaches (scanScore v i) sens) [1..?T]"
  have "sorted_wrt (<) ?is" by (intro sorted_wrt_filter sorted_wrt_upto)
  then have "sorted_wrt (\<lambda>i j. scanTime (duration v) i < scanTime (duration v) j) ?is"
  proof (rule sorted_wrt_mono_rel [rotated])
    fix i j assume "i \<in> set ?is" "j \<in> set ?is" "i < j"
    then show "scanTime (duration v) i < scanTime (duration v) j"
      by (intro scanTime_inner) simp_all
  qed
  then show ?thesis
    by (simp add: detectSceneChanges_filter sorted_wrt_map o_def emitted_def)
qed


text \<open>
  Claim C8. The scan sampler emits a change point at scan step \<open>i\<close> exactly when \<open>i \<ge> 1\<close>
  and the differencer score of the raster of step \<open>i\<close> against the raster of step \<open>i - 1\<close>
  reaches the sensitivity; a step without a predecessor (the first one) adds nothing and
  only stores its raster; the emitted points are in non-decreasing timestamp order.
\<close>

theorem scan_sampler_emits:
  "detectSceneChanges v sens
     = map (emitted v) (filter (\<lambda>i. reaches (scanScore v i) sens) [1..totalScans (duration v)])
   \<and> scanLoop v sens (i # is) None changes
       = scanLoop v sens is (Some (scanRaster v (scanTime (duration v) i))) changes
   \<and> sorted (map timestamp (detectSceneChanges v sens))"
proof -
  have "sorted (map timestamp (detectSceneChanges v sens))"
    using detectSceneChanges_strict [of v sens] strict_sorted_iff by blast
  then show ?thesis
    using detectSceneChanges_filter [of v sens] by (simp add: Let_def)
qed

theorem scan_sampler_emits_witness:
  "detectSceneChanges demoScan (1 / 10) = [\<lparr>timestamp = 1, changeScore = 1\<rparr>]"
proof -
  have T: "totalScans (duration demoScan) = 4"
    by (simp add: totalScans_def demoScan_def SCAN_INTERVAL_def)
  have s: "scanScore demoScan 1 = Finite 0" "scanScore demoScan 2 = Finite 1"
    "scanScore demoScan 3 = Finite 0" "scanScore demoScan 4 = Finite 0"
    by (simp_all add: scanScore_def demoScan_def scanTime_def SCAN_INTERVAL_def
        calculateFrameDifference_def diffLoop.simps px_def)
  have "detectSceneChanges demoScan (1 / 10) = [emitted demoScan 2]"
    using scan_sampler_emits [of demoScan "1 / 10"] by (simp add: T upto_rec1 s)
  then show ?thesis
    by (simp add: emitted_def s) (simp add: demoScan_def scanTime_def SCAN_INTERVAL_def)
qed

section \<open>Change consolidator\<close>

lemma mergeLoop_snoc:
  "mergeLoop (ms @ [l]) (c # cs) =
     mergeLoop (if timestamp c - timestamp l < MIN_FRAME_INTERVAL
                then (if changeScore c > changeScore l then ms @ [c] else ms @ [l])
                else ms @ [l, c]) cs"
  by (simp add: Let_def)

lemma mergeLoop_nonempty: "merged \<noteq> [] \<Longrightarrow> mergeLoop merged cs \<noteq> []"
proof (induction cs arbitrary: merged)
  case Nil
  then show ?case by simp
next
  case (Cons c cs)
  from Cons.prems obtain ms l where m: "merged = ms @ [l]" by (cases merged rule: rev_cases) auto
  show ?case unfolding m mergeLoop_snoc by (rule Cons.IH) simp
qed

lemma mergeLoop_subset: "merged \<noteq> [] \<Longrightarrow> set (mergeLoop merged cs) \<subseteq> set merged \<union> set cs"
proof (induction cs arbitrary: merged)
  case Nil
  then show ?case by simp
next
  case (Cons c cs)
  from Cons.prems obtain ms l where m: "merged = ms @ [l]" by (cases merged rule: rev_cases) auto
  let ?next = "if timestamp c - timestamp l < MIN_FRAME_INTERVAL
                then (if changeScore c > changeScore l then ms @ [c] else ms @ [l])
                else ms @ [l, c]"
  have "?next \<noteq> []" by simp
  then have "set (mergeLoop ?next cs) \<subseteq> set ?next \<union> set cs" by (rule Cons.IH)
  moreover have "set ?next \<subseteq> set (ms @ [l]) \<union> {c}" by auto
  ultimately show ?case unfolding m mergeLoop_snoc by auto
qed

lemma mergeLoop_gap:
  assumes "sorted_wrt gap (ms @ [l])" "sorted (map timestamp cs)"
    and "\<forall>c \<in> set cs. timestamp l \<le> timestamp c"
  shows "sorted_wrt gap (mergeLoop (ms @ [l]) cs)"
  using assms
proof (induction cs arbitrary: ms l)
  case Nil
  then show ?case by simp
next
  case (Cons c cs)
  from Cons.prems have ms: "sorted_wrt gap ms" and msl: "\<forall>x \<in> set ms. gap x l"
    and lc: "timestamp l \<le> timestamp c"
    and cs: "sorted (map timestamp cs)" and ccs: "\<forall>c' \<in> set cs. timestamp c \<le> timestamp c'"
    by (auto simp: sorted_wrt_append)
  have msc: "\<forall>x \<in> set ms. gap x c" using msl lc by (auto simp: gap_def)
  have lcs: "\<forall>c' \<in> set cs. timestamp l \<le> timestamp c'" using lc ccs by auto
  consider (replace) "timestamp c - timestamp l < MIN_FRAME_INTERVAL" "changeScore c > changeScore l"
    | (drop) "timestamp c - timestamp l < MIN_FRAME_INTERVAL" "\<not> changeScore c > changeScore l"
    | (push) "\<not> timestamp c - timestamp l < MIN_FRAME_INTERVAL"
    by blast
  then show ?case
  proof cases
    case replace
    have "sorted_wrt gap (mergeLoop (ms @ [c]) cs)"
      using ms msc cs ccs by (intro Cons.IH) (simp_all add: sorted_wrt_append)
    then show ?thesis unfolding mergeLoop_snoc using replace by simp
  next
    case drop
    have "sorted_wrt gap (mergeLoop (ms @ [l]) cs)"
      using Cons.prems(1) cs lcs by (intro Cons.IH)
    then show ?thesis unfolding mergeLoop_snoc using drop by simp
  next
    case push
    then have "gap l c" by (simp add: gap_def)
    then have "sorted_wrt gap ((ms @ [l]) @ [c])"
      using Cons.prems(1) msc by (simp add: sorted_wrt_append)
    then have "sorted_wrt gap (mergeLoop ((ms @ [l]) @ [c]) cs)"
      using cs ccs by (intro Cons.IH)
    then show ?thesis unfolding mergeLoop_snoc using push by simp
  qed
qed


lemma gap_distinct:
  assumes "sorted_wrt gap xs"
  shows "distinct xs"
  using assms
proof (induction xs)
  case Nil
  then show ?case by simp
next
  case (Cons x xs)
  have "\<not> gap x x" by (simp add: gap_def MIN_FRAME_INTERVAL_def)
  with Cons show ?case by auto
qed

lemma gap_selection:
  assumes "sorted_wrt gap xs" "distinct zs" "set zs \<subseteq> set xs" "sorted (map timestamp zs)"
  shows "sorted_wrt gap zs"
proof -
  have tot: "gap x y \<or> gap y x" if "x \<in> set xs" "y \<in> set xs" "x \<noteq> y" for x y
  proof -
    from that(1) obtain i where i: "i < length xs" "xs ! i = x" by (auto simp: in_set_conv_nth)
    from that(2) obtain j where j: "j < length xs" "xs ! j = y" by (auto simp: in_set_conv_nth)
    have "i \<noteq> j" using that(3) i(2) j(2) by blast
    then have "i < j \<or> j < i" by linarith
    then show ?thesis
    proof
      assume "i < j"
      with assms(1) j(1) have "gap (xs ! i) (xs ! j)" by (simp add: sorted_wrt_nth_less)
      then show ?thesis using i j by simp
    next
      assume "j < i"
      with assms(1) i(1) have "gap (xs ! j) (xs ! i)" by (simp add: sorted_wrt_nth_less)
      then show ?thesis using i j by simp
    qed
  qed
  show ?thesis
    unfolding sorted_wrt_iff_nth_less
  proof (intro allI impI)
    fix i j assume ij: "i < j" "j < length zs"
    then have ne: "zs ! i \<noteq> zs ! j" using assms(2) by (simp add: nth_eq_iff_index_eq)
    have le: "timestamp (zs ! i) \<le> timestamp (zs ! j)"
      using assms(4) ij by (simp add: sorted_iff_nth_mono)
    have "zs ! i \<in> set xs" "zs ! j \<in> set xs" using ij assms(3) by auto
    then have "gap (zs ! i) (zs ! j) \<or> gap (zs ! j) (zs ! i)"
      using ne by (rule tot)
    then show "gap (zs ! i) (zs ! j)"
      using le by (auto simp: gap_def MIN_FRAME_INTERVAL_def)
  qed
qed

lemma set_slice0: "set (slice0 xs n) \<subseteq> set xs"
  by (auto simp: slice0_def dest: in_set_takeD)

lemma distinct_slice0: "distinct xs \<Longrightarrow> distinct (slice0 xs n)"
  by (simp add: slice0_def)

lemma consolidate_cases:
  "consolidateChanges (c0 # rest) n =
     (if int (length (mergeLoop [c0] rest)) \<le> n then mergeLoop [c0] rest
      else sort_key timestamp
             (slice0 (sort_key (\<lambda>p. - changeScore p) (mergeLoop [c0] rest)) n))"
  by (simp add: consolidateChanges_def Let_def)

lemma consolidateChanges_gap:
  assumes "sorted (map timestamp changes)"
  shows "sorted_wrt gap (consolidateChanges changes n)"
proof (cases changes)
  case Nil
  then show ?thesis by (simp add: consolidateChanges_def)
next
  case (Cons c0 rest)
  let ?merged = "mergeLoop [c0] rest"
  have m: "sorted_wrt gap ?merged"
    using mergeLoop_gap [of "[]" c0 rest] assms Cons by simp
  show ?thesis
  proof (cases "int (length ?merged) \<le> n")
    case True
    then show ?thesis unfolding Cons consolidate_cases using m by simp
  next
    case False
    let ?sel = "slice0 (sort_key (\<lambda>p. - changeScore p) ?merged) n"
    have "distinct ?merged" using m by (rule gap_distinct)
    then have "distinct (sort_key timestamp ?sel)"
      by (simp add: distinct_slice0 del: mergeLoop.simps)
    moreover have "set (sort_key timestamp ?sel) \<subseteq> set ?merged"
      using set_slice0 [of "sort_key (\<lambda>p. - changeScore p) ?merged" n]
      by (simp del: mergeLoop.simps)
    moreover have "sorted (map timestamp (sort_key timestamp ?sel))"
      by (rule sorted_sort_key)
    ultimately have "sorted_wrt gap (sort_key timestamp ?sel)"
      by (rule gap_selection [OF m])
    then show ?thesis unfolding Cons consolidate_cases using False by simp
  qed
qed

lemma consolidateChanges_subset: "set (consolidateChanges changes n) \<subseteq> set changes"
proof (cases changes)
  case Nil
  then show ?thesis by (simp add: consolidateChanges_def)
next
  case (Cons c0 rest)
  let ?merged = "mergeLoop [c0] rest"
  have m: "set ?merged \<subseteq> set changes"
    using mergeLoop_subset [of "[c0]" rest] Cons by simp
  have "set (slice0 (sort_key (\<lambda>p. - changeScore p) ?merged) n) \<subseteq> set ?merged"
    using set_slice0 [of "sort_key (\<lambda>p. - changeScore p) ?merged" n]
    by (simp del: mergeLoop.simps)
  with m show ?thesis unfolding consolidate_cases Cons by (auto simp del: mergeLoop.simps)
qed

text \<open>
  Claim C7. In the temporal merge, a new point whose timestamp is less than the minimum
  interval (1.0 s) after the last kept point replaces that point when its \<open>changeScore\<close> is
  strictly higher and is dropped otherwise; in particular two change points less than the
  minimum interval apart are consolidated (for \<open>maxFrames \<ge> 1\<close>) to the single point with
  the higher \<open>changeScore\<close>, the earlier one on a tie.
\<close>

theorem merge_within_interval:
  "(merged \<noteq> [] \<and> timestamp c - timestamp (last merged) < MIN_FRAME_INTERVAL
      \<longrightarrow> mergeLoop merged (c # cs)
          = mergeLoop (if changeScore (last merged) < changeScore c
                       then butlast merged @ [c] else merged) cs)
   \<and> (timestamp b - timestamp a < MIN_FRAME_INTERVAL \<and> 1 \<le> n
      \<longrightarrow> consolidateChanges [a, b] n = [if changeScore a < changeScore b then b else a])"
proof (intro conjI impI)
  assume h: "merged \<noteq> [] \<and> timestamp c - timestamp (last merged) < MIN_FRAME_INTERVAL"
  then obtain ms l where m: "merged = ms @ [l]" by (cases merged rule: rev_cases) auto
  with h show "mergeLoop merged (c # cs)
          = mergeLoop (if changeScore (last merged) < changeScore c
                       then butlast merged @ [c] else merged) cs"
    by (simp add: mergeLoop_snoc del: mergeLoop.simps)
next
  assume "timestamp b - timestamp a < MIN_FRAME_INTERVAL \<and> 1 \<le> n"
  then show "consolidateChanges [a, b] n = [if changeScore a < changeScore b then b else a]"
    by (simp add: consolidateChanges_def Let_def)
qed

theorem merge_within_interval_witness:
  "consolidateChanges [\<lparr>timestamp = 5, changeScore = 2 / 10\<rparr>,
                       \<lparr>timestamp = 11 / 2, changeScore = 7 / 10\<rparr>] 10
     = [\<lparr>timestamp = 11 / 2, changeScore = 7 / 10\<rparr>]
   \<and> mergeLoop [\<lparr>timestamp = 5, changeScore = 2 / 10\<rparr>]
        [\<lparr>timestamp = 11 / 2, changeScore = 1 / 10\<rparr>]
     = [\<lparr>timestamp = 5, changeScore = 2 / 10\<rparr>]"
proof -
  note th = merge_within_interval
    [of "[\<lparr>timestamp = 5, changeScore = 2 / 10\<rparr>]" "\<lparr>timestamp = 11 / 2, changeScore = 1 / 10\<rparr>" "[]"
        "\<lparr>timestamp = 11 / 2, changeScore = 7 / 10\<rparr>" "\<lparr>timestamp = 5, changeScore = 2 / 10\<rparr>" 10]
  have "(11 / 2 :: real) - 5 < MIN_FRAME_INTERVAL" by (simp add: MIN_FRAME_INTERVAL_def)
  with th show ?thesis by (simp del: mergeLoop.simps) simp
qed

text \<open>
  Claim C9. For an input sorted by timestamp, any two points of the consolidator's output
  (consecutive ones in particular) are at least the minimum frame interval (1.0 s) apart,
  in output order, and every output point is one of the input points, unchanged.
\<close>

theorem consolidator_spacing:
  assumes "sorted (map timestamp changes)"
  shows "sorted_wrt gap (consolidateChanges changes n)
       \<and> (\<forall>i. Suc i < length (consolidateChanges changes n) \<longrightarrow>
             timestamp (consolidateChanges changes n ! Suc i)
               - timestamp (consolidateChanges changes n ! i) \<ge> MIN_FRAME_INTERVAL)
       \<and> set (consolidateChanges changes n) \<subseteq> set changes"
proof -
  have g: "sorted_wrt gap (consolidateChanges changes n)"
    using assms by (rule consolidateChanges_gap)
  have "timestamp (consolidateChanges changes n ! Suc i)
               - timestamp (consolidateChanges changes n ! i) \<ge> MIN_FRAME_INTERVAL"
    if "Suc i < length (consolidateChanges changes n)" for i
  proof -
    have "gap (consolidateChanges changes n ! i) (consolidateChanges changes n ! Suc i)"
      using g that by (simp add: sorted_wrt_nth_less)
    then show ?thesis by (simp add: gap_def)
  qed
  with g consolidateChanges_subset [of changes n] show ?thesis by blast
qed

theorem consolidator_spacing_witness:
  "sorted (map timestamp demoChanges)
   \<and> consolidateChanges demoChanges 2
       = [\<lparr>timestamp = 1, changeScore = 5 / 10\<rparr>, \<lparr>timestamp = 7 / 2, changeScore = 9 / 10\<rparr>]
   \<and> sorted_wrt gap (consolidateChanges demoChanges 2)"
proof -
  have s: "sorted (map timestamp demoChanges)" by (simp add: demoChanges_def)
  have c: "consolidateChanges demoChanges 2
       = [\<lparr>timestamp = 1, changeScore = 5 / 10\<rparr>, \<lparr>timestamp = 7 / 2, changeScore = 9 / 10\<rparr>]"
    by (simp add: demoChanges_def consolidateChanges_def MIN_FRAME_INTERVAL_def slice0_def)
  from consolidator_spacing [OF s, of 2] have "sorted_wrt gap (consolidateChanges demoChanges 2)"
    by (elim conjE)
  with s c show ?thesis by (intro conjI)
qed

section \<open>Orchestrator\<close>

lemma length_slice0: "0 \<le> n \<Longrightarrow> length (slice0 xs n) = min (nat n) (length xs)"
  by (simp add: slice0_def min.commute)

lemma length_consolidateChanges:
  assumes "0 \<le> n"
  shows "int (length (consolidateChanges changes n)) \<le> n"
proof (cases changes)
  case Nil
  with assms show ?thesis by (simp add: consolidateChanges_def)
next
  case (Cons c0 rest)
  show ?thesis
    unfolding Cons consolidate_cases using assms
    by (simp add: length_slice0 del: mergeLoop.simps)
qed

lemma top_scores:
  assumes "p \<in> set (take k (sort_key (\<lambda>p. - changeScore p) xs))"
    and "q \<in> set xs" "q \<notin> set (take k (sort_key (\<lambda>p. - changeScore p) xs))"
  shows "changeScore q \<le> changeScore p"
proof -
  let ?ys = "sort_key (\<lambda>p. - changeScore p) xs"
  have "sorted (map (\<lambda>p. - changeScore p) (take k ?ys) @ map (\<lambda>p. - changeScore p) (drop k ?ys))"
    unfolding map_append [symmetric] append_take_drop_id by (rule sorted_sort_key)
  then have a: "\<forall>x \<in> set (take k ?ys). \<forall>y \<in> set (drop k ?ys). - changeScore x \<le> - changeScore y"
    unfolding sorted_append by auto
  have "set (take k ?ys) \<union> set (drop k ?ys) = set xs"
    unfolding set_append [symmetric] append_take_drop_id by (rule set_sort)
  with assms(2,3) have "q \<in> set (drop k ?ys)" by blast
  with a assms(1) show ?thesis by auto
qed

lemma consolidate_top:
  assumes "n < int (length (mergeLoop [c0] rest))" "0 \<le> n"
  shows "length (consolidateChanges (c0 # rest) n) = nat n"
    and "set (consolidateChanges (c0 # rest) n) \<subseteq> set (mergeLoop [c0] rest)"
    and "\<forall>p \<in> set (consolidateChanges (c0 # rest) n).
           \<forall>q \<in> set (mergeLoop [c0] rest) - set (consolidateChanges (c0 # rest) n).
             changeScore q \<le> changeScore p"
proof -
  let ?merged = "mergeLoop [c0] rest"
  have c: "consolidateChanges (c0 # rest) n
         = sort_key timestamp (take (nat n) (sort_key (\<lambda>p. - changeScore p) ?merged))"
    unfolding consolidate_cases using assms by (simp add: slice0_def del: mergeLoop.simps)
  show "length (consolidateChanges (c0 # rest) n) = nat n"
    unfolding c using assms by (simp del: mergeLoop.simps)
  show "set (consolidateChanges (c0 # rest) n) \<subseteq> set ?merged"
    unfolding c using set_take_subset [of "nat n" "sort_key (\<lambda>p. - changeScore p) ?merged"]
    by (simp del: mergeLoop.simps)
  show "\<forall>p \<in> set (consolidateChanges (c0 # rest) n).
           \<forall>q \<in> set ?merged - set (consolidateChanges (c0 # rest) n).
             changeScore q \<le> changeScore p"
    unfolding c using top_scores [of _ "nat n" ?merged] by (simp del: mergeLoop.simps)
qed

lemma length_backfill:
  "0 \<le> n \<Longrightarrow> int (length (backfill fts d n)) \<le> n"
  by (simp add: backfill_def Let_def length_slice0)

lemma length_generateEqualIntervals: "length (generateEqualIntervals d n) = nat n"
  by (simp add: generateEqualIntervals_def)

lemma length_selectTimestamps:
  assumes "0 \<le> maxFrames opts"
  shows "int (length (selectTimestamps v opts)) \<le> maxFrames opts"
  using assms length_backfill [OF assms] length_consolidateChanges [OF assms]
  by (simp add: selectTimestamps_def Let_def length_generateEqualIntervals)

lemma extractFrames_Inr:
  "extractFrames (Some v) po = Inr frames
     \<longleftrightarrow> frames = captureFrames v (selectTimestamps v (resolveOptions po))"
  by (auto simp: extractFrames_def)

lemma backfill_take:
  assumes "0 \<le> n"
  shows "backfill fts d n
       = take (nat n) (sort_key timestamp
           (fts @ filter (\<lambda>eq. tenth eq \<notin> tenth ` set fts) (generateEqualIntervals d n)))"
  using assms by (simp add: backfill_def Let_def slice0_def tenth_def image_def)

text \<open>
  Claim C2. For \<open>maxFrames = N \<ge> 1\<close> the output of \<open>extractFrames\<close> has at most \<open>N\<close>
  frames, in automatic and in manual mode. In particular, when the merged set of the
  consolidator has more than \<open>N\<close> points, the consolidator returns exactly \<open>N\<close> of them and
  no point it leaves out has a higher \<open>changeScore\<close> than a point it keeps; and the
  backfill is the first \<open>N\<close> points, in timestamp order, of the detected points merged with
  the evenly spaced points that survive the deduplication: all of them when there are at
  most \<open>N\<close>, exactly \<open>N\<close> otherwise.
\<close>

theorem cap_respected:
  assumes "extractFrames (Some v) po = Inr frames"
    and "maxFrames (resolveOptions po) = N" and "1 \<le> N"
  shows "int (length frames) \<le> N
       \<and> (N < int (length (mergeLoop [c0] rest)) \<longrightarrow>
            length (consolidateChanges (c0 # rest) N) = nat N
            \<and> set (consolidateChanges (c0 # rest) N) \<subseteq> set (mergeLoop [c0] rest)
            \<and> (\<forall>p \<in> set (consolidateChanges (c0 # rest) N).
                 \<forall>q \<in> set (mergeLoop [c0] rest) - set (consolidateChanges (c0 # rest) N).
                   changeScore q \<le> changeScore p))
       \<and> int (length (backfill frameTimestamps d N)) \<le> N
       \<and> backfill frameTimestamps d N
           = take (nat N) (sort_key timestamp
               (frameTimestamps
                @ filter (\<lambda>eq. tenth eq \<notin> tenth ` set frameTimestamps)
                    (generateEqualIntervals d N)))
       \<and> length (backfill frameTimestamps d N)
           = min (nat N)
               (length frameTimestamps
                + length (filter (\<lambda>eq. tenth eq \<notin> tenth ` set frameTimestamps)
                            (generateEqualIntervals d N)))"
proof -
  have n: "0 \<le> N" using assms(3) by simp
  note bt = backfill_take [OF n, of frameTimestamps d]
  have bl: "length (backfill frameTimestamps d N)
           = min (nat N)
               (length frameTimestamps
                + length (filter (\<lambda>eq. tenth eq \<notin> tenth ` set frameTimestamps)
                            (generateEqualIntervals d N)))"
    unfolding bt by (simp add: min.commute)
  have "int (length frames) \<le> N"
    using assms(1,2) length_selectTimestamps [of "resolveOptions po" v] n
    by (simp add: extractFrames_Inr length_captureFrames)
  moreover have "int (length (backfill frameTimestamps d N)) \<le> N"
    using n by (rule length_backfill)
  ultimately show ?thesis
    using consolidate_top [of N c0 rest] n bt bl by blast
qed

theorem cap_respected_witness:
  "\<exists>frames. extractFrames (Some demoScan) demoAuto = Inr frames
      \<and> maxFrames (resolveOptions demoAuto) = 2
      \<and> int (length frames) \<le> 2
      \<and> length (consolidateChanges demoChanges 2) = 2
      \<and> backfill [\<lparr>timestamp = 1, changeScore = 1\<rparr>] 2 2
          = [\<lparr>timestamp = 2 / 3, changeScore = 0\<rparr>, \<lparr>timestamp = 1, changeScore = 1\<rparr>]"
proof -
  obtain frames where e: "extractFrames (Some demoScan) demoAuto = Inr frames"
    by (simp add: extractFrames_def)
  have n: "maxFrames (resolveOptions demoAuto) = 2"
    by (simp add: resolveOptions_def demoAuto_def)
  note th = cap_respected [OF e n, of "\<lparr>timestamp = 1 / 2, changeScore = 2 / 10\<rparr>"
      "[\<lparr>timestamp = 1, changeScore = 5 / 10\<rparr>,
        \<lparr>timestamp = 3 / 2, changeScore = 1 / 10\<rparr>, \<lparr>timestamp = 2, changeScore = 3 / 10\<rparr>,
        \<lparr>timestamp = 7 / 2, changeScore = 9 / 10\<rparr>]"
      "[\<lparr>timestamp = 1, changeScore = 1\<rparr>]" 2]
  have "int (length frames) \<le> 2" using th by simp
  moreover have "length (consolidateChanges demoChanges 2) = 2"
    using th by (simp add: demoChanges_def MIN_FRAME_INTERVAL_def)
  moreover have "backfill [\<lparr>timestamp = 1, changeScore = 1\<rparr>] 2 2
          = take (nat 2) (sort_key timestamp
               ([\<lparr>timestamp = 1, changeScore = 1\<rparr>]
                @ filter (\<lambda>eq. tenth eq \<notin> tenth ` set [\<lparr>timestamp = 1, changeScore = 1\<rparr>])
                    (generateEqualIntervals 2 2)))"
    using th by simp
  then have "backfill [\<lparr>timestamp = 1, changeScore = 1\<rparr>] 2 2
          = [\<lparr>timestamp = 2 / 3, changeScore = 0\<rparr>, \<lparr>timestamp = 1, changeScore = 1\<rparr>]"
    by (simp add: generateEqualIntervals_def upto_rec1 tenth_def Math_round_def)
  ultimately show ?thesis using e n by (intro exI [of _ frames]) simp
qed













section \<open>Minimum number of frames in automatic mode\<close>









section \<open>Binary64 rounding\<close>

lemma round_even_cases: "round_even x = \<lfloor>x\<rfloor> \<or> round_even x = \<lfloor>x\<rfloor> + 1"
  by (simp add: round_even_def Let_def)

lemma round_even_of_int [simp]: "round_even (of_int n) = n"
  by (simp add: round_even_def Let_def)

lemma round_even_error: "\<bar>of_int (round_even x) - x\<bar> \<le> 1 / 2"
proof -
  have "of_int \<lfloor>x\<rfloor> \<le> x" "x < of_int \<lfloor>x\<rfloor> + 1" by linarith+
  then show ?thesis
    by (auto simp: round_even_def Let_def abs_le_iff)
qed

lemma round_even_le:
  assumes "x \<le> of_int m"
  shows "round_even x \<le> m"
proof -
  have f: "\<lfloor>x\<rfloor> \<le> m" using assms by (simp add: floor_le_iff)
  show ?thesis
  proof (cases "\<lfloor>x\<rfloor> = m")
    case True
    then have "x = of_int m" using assms of_int_floor_le [of x] by linarith
    then show ?thesis by simp
  next
    case False
    with f have "\<lfloor>x\<rfloor> + 1 \<le> m" by simp
    then show ?thesis using round_even_cases [of x] by linarith
  qed
qed

lemma round_even_ge:
  assumes "of_int m \<le> x"
  shows "m \<le> round_even x"
proof -
  have "m \<le> \<lfloor>x\<rfloor>" using assms by (simp add: le_floor_iff)
  then show ?thesis using round_even_cases [of x] by linarith
qed

lemma pow2_succ: "(2::real) powi (n + 1) = 2 * 2 powi n"
  by (simp add: power_int_add)

lemma pow2_pred: "(2::real) powi (n - 1) = 2 powi n / 2"
  by (simp add: power_int_diff)

lemma expo_upper:
  "0 < x \<Longrightarrow> x < 2 powi (int k + 1) \<Longrightarrow> x < 2 powi (expo k x + 1)"
proof (induction k x rule: expo.induct)
  case (1 k x)
  show ?case
  proof (cases "k = 0")
    case True
    with "1.prems" show ?thesis by (subst expo.simps) simp
  next
    case k: False
    then have "int k + 1 = (int (k - 1) + 1) + 1" by simp
    then have a: "(2::real) powi (int k + 1) = 2 * 2 powi (int (k - 1) + 1)"
      by (simp only: pow2_succ)
    consider "2 \<le> x" | "x < 1" | "1 \<le> x" "x < 2" by linarith
    then show ?thesis
    proof cases
      case 1
      have "x / 2 < 2 powi (int (k - 1) + 1)"
        using "1.prems"(2) a by linarith
      with "1.IH"(1) [OF k 1] "1.prems"(1)
      have "x / 2 < 2 powi (expo (k - 1) (x / 2) + 1)" by simp
      then have "x < 2 powi (expo (k - 1) (x / 2) + 1 + 1)"
        by (simp add: power_int_add)
      then show ?thesis using k 1 by (subst expo.simps) simp
    next
      case 2
      have "(2::real) powi 1 \<le> 2 powi (int (k - 1) + 1)"
        by (intro power_int_increasing) simp_all
      then have "2 * x < 2 powi (int (k - 1) + 1)" using 2 by simp
      with "1.IH"(2) [OF k _ 2] 2 "1.prems"(1)
      have "2 * x < 2 powi (expo (k - 1) (2 * x) + 1)" by simp
      then have "x < 2 powi (expo (k - 1) (2 * x) - 1 + 1)"
        by (simp add: power_int_add)
      then show ?thesis using k 2 by (subst expo.simps) simp
    next
      case 3
      then show ?thesis using k by (subst expo.simps) simp
    qed
  qed
qed

lemma expo_lower:
  "0 < x \<Longrightarrow> 2 powi (- int k) \<le> x \<Longrightarrow> 2 powi (expo k x) \<le> x"
proof (induction k x rule: expo.induct)
  case (1 k x)
  show ?case
  proof (cases "k = 0")
    case True
    with "1.prems" show ?thesis by (subst expo.simps) simp
  next
    case k: False
    then have "- int k = - int (k - 1) - 1" by simp
    then have b: "(2::real) powi (- int k) = 2 powi (- int (k - 1)) / 2"
      by (simp only: pow2_pred)
    consider "2 \<le> x" | "x < 1" | "1 \<le> x" "x < 2" by linarith
    then show ?thesis
    proof cases
      case 1
      have "(2::real) powi (- int (k - 1)) \<le> 2 powi 0"
        by (intro power_int_increasing) simp_all
      then have "2 powi (- int (k - 1)) \<le> x / 2" using 1 by simp
      with "1.IH"(1) [OF k 1] "1.prems"(1)
      have "2 powi (expo (k - 1) (x / 2)) \<le> x / 2" by simp
      then have "2 powi (expo (k - 1) (x / 2) + 1) \<le> x"
        by (simp add: power_int_add)
      then show ?thesis using k 1 by (subst expo.simps) simp
    next
      case 2
      have "2 powi (- int (k - 1)) \<le> 2 * x"
        using "1.prems"(2) b by linarith
      with "1.IH"(2) [OF k _ 2] 2 "1.prems"(1)
      have "2 powi (expo (k - 1) (2 * x)) \<le> 2 * x" by simp
      then have "2 powi (expo (k - 1) (2 * x) - 1) \<le> x"
        by (simp add: power_int_diff)
      then show ?thesis using k 2 by (subst expo.simps) simp
    next
      case 3
      then show ?thesis using k by (subst expo.simps) simp
    qed
  qed
qed

lemma expo_small: "0 < x \<Longrightarrow> x < 1 \<Longrightarrow> expo k x \<le> 0"
proof (induction k x rule: expo.induct)
  case (1 k x)
  show ?case
  proof (cases "k = 0")
    case True
    then show ?thesis by (subst expo.simps) simp
  next
    case k: False
    show ?thesis
    proof (cases "2 * x < 1")
      case True
      with "1.IH"(2) [OF k _ "1.prems"(2)] "1.prems"
      have "expo (k - 1) (2 * x) \<le> 0" by simp
      then show ?thesis using k "1.prems" by (subst expo.simps) simp
    next
      case False
      have "expo (k - 1) (2 * x) = 0"
        using False "1.prems" by (subst expo.simps) simp
      then show ?thesis using k "1.prems" by (subst expo.simps) simp
    qed
  qed
qed

lemma fl_pos:
  assumes "0 < x"
  shows "fl x = of_int (round_even (x / 2 powi (max (expo 1100 x) (- 1022) - 52)))
                  * 2 powi (max (expo 1100 x) (- 1022) - 52)"
  using assms by (simp add: fl_def Let_def)

lemma fl_zero [simp]: "fl 0 = 0"
  by (simp add: fl_def)

lemma fl_nonneg:
  assumes "0 \<le> x"
  shows "0 \<le> fl x"
proof (cases "x = 0")
  case True
  then show ?thesis by simp
next
  case False
  with assms have x: "0 < x" by simp
  let ?q = "(2::real) powi (max (expo 1100 x) (- 1022) - 52)"
  have "of_int 0 \<le> x / ?q" using x by simp
  then have "0 \<le> round_even (x / ?q)" by (rule round_even_ge)
  then show ?thesis unfolding fl_pos [OF x] by simp
qed

lemma fl_abs: "\<bar>fl x\<bar> = fl \<bar>x\<bar>"
proof (cases "x = 0")
  case True
  then show ?thesis by simp
next
  case False
  let ?q = "(2::real) powi (max (expo 1100 \<bar>x\<bar>) (- 1022) - 52)"
  have "of_int 0 \<le> \<bar>x\<bar> / ?q" by simp
  then have "0 \<le> round_even (\<bar>x\<bar> / ?q)" by (rule round_even_ge)
  then have "\<bar>real_of_int (round_even (\<bar>x\<bar> / ?q))\<bar> = real_of_int (round_even (\<bar>x\<bar> / ?q))"
    by simp
  then show ?thesis using False
    by (simp add: fl_def Let_def abs_mult abs_sgn_eq del: of_int_mult)
qed

lemma pow2_less_exp:
  assumes "(2::real) powi a \<le> x" "x < 2 powi b"
  shows "a < b"
proof (rule ccontr)
  assume "\<not> a < b"
  then have "(2::real) powi b \<le> 2 powi a" by (intro power_int_increasing) simp_all
  with assms show False by linarith
qed

lemma expo_normal:
  assumes "2 powi (- 1022) \<le> x" "x < 2 powi 1024"
  shows "2 powi (expo 1100 x) \<le> x" and "x < 2 powi (expo 1100 x + 1)"
    and "max (expo 1100 x) (- 1022) = expo 1100 x"
proof -
  have x: "0 < x" using assms(1) by (rule less_le_trans [rotated]) simp
  have "(2::real) powi (- int 1100) \<le> 2 powi (- 1022)"
    by (intro power_int_increasing) simp_all
  with assms(1) have "2 powi (- int 1100) \<le> x" by linarith
  with x show l: "2 powi (expo 1100 x) \<le> x" by (rule expo_lower)
  have "(2::real) powi 1024 \<le> 2 powi (int 1100 + 1)"
    by (intro power_int_increasing) simp_all
  with assms(2) have "x < 2 powi (int 1100 + 1)" by linarith
  with x show u: "x < 2 powi (expo 1100 x + 1)" by (rule expo_upper)
  from assms(1) u have "- 1022 < expo 1100 x + 1" by (rule pow2_less_exp)
  then show "max (expo 1100 x) (- 1022) = expo 1100 x" by simp
qed

lemma fl_error:
  assumes "2 powi (- 1022) \<le> x" "x < 2 powi 1024"
  shows "\<bar>fl x - x\<bar> \<le> x / 2 ^ 53"
proof -
  have x: "0 < x" using assms(1) by (rule less_le_trans [rotated]) simp
  define e where "e = expo 1100 x"
  define q :: real where "q = 2 powi (e - 52)"
  have q: "0 < q" by (simp add: q_def)
  have f: "fl x = of_int (round_even (x / q)) * q"
    using fl_pos [OF x] expo_normal(3) [OF assms] by (simp add: q_def e_def)
  have "\<bar>fl x - x\<bar> = \<bar>of_int (round_even (x / q)) - x / q\<bar> * q"
  proof -
    have "fl x - x = (of_int (round_even (x / q)) - x / q) * q"
      using q by (simp add: f left_diff_distrib)
    then show ?thesis using q by (simp add: abs_mult)
  qed
  also have "\<dots> \<le> 1 / 2 * q"
    using q round_even_error [of "x / q"] by (intro mult_right_mono) simp_all
  also have "1 / 2 * q = 2 powi e / 2 ^ 53"
    by (simp add: q_def power_int_diff)
  also have "\<dots> \<le> x / 2 ^ 53"
    using expo_normal(1) [OF assms] by (simp add: e_def divide_right_mono)
  finally show ?thesis .
qed

lemma fl_ge_pow2:
  assumes "- 1022 \<le> m" "2 powi m \<le> x" "x < 2 powi 1024"
  shows "2 powi m \<le> fl x"
proof -
  have "(2::real) powi (- 1022) \<le> 2 powi m" using assms(1) by (intro power_int_increasing) simp_all
  with assms(2) have n: "2 powi (- 1022) \<le> x" by linarith
  have x: "0 < x" using n by (rule less_le_trans [rotated]) simp
  define e where "e = expo 1100 x"
  define q :: real where "q = 2 powi (e - 52)"
  have q: "0 < q" by (simp add: q_def)
  have f: "fl x = of_int (round_even (x / q)) * q"
    using fl_pos [OF x] expo_normal(3) [OF n assms(3)] by (simp add: q_def e_def)
  have le: "2 powi e \<le> x" using expo_normal(1) [OF n assms(3)] by (simp add: e_def)
  have "m < e + 1" using assms(2) expo_normal(2) [OF n assms(3)] unfolding e_def
    by (rule pow2_less_exp)
  then have me: "(2::real) powi m \<le> 2 powi e" by (intro power_int_increasing) simp_all
  have eq: "(2::real) powi e / q = real_of_int (2 ^ 52)" by (simp add: q_def power_int_diff)
  have "2 powi e / q \<le> x / q" using le q by (intro divide_right_mono) simp_all
  then have "real_of_int (2 ^ 52) \<le> x / q" by (simp only: eq)
  then have "2 ^ 52 \<le> round_even (x / q)" by (rule round_even_ge)
  then have "real_of_int (2 ^ 52) \<le> real_of_int (round_even (x / q))" by (simp only: of_int_le_iff)
  then have "real_of_int (2 ^ 52) * q \<le> fl x" unfolding f using q by (intro mult_right_mono) simp_all
  moreover have "real_of_int (2 ^ 52) * q = 2 powi e" by (simp add: q_def power_int_diff)
  ultimately show ?thesis using me by linarith
qed

lemma expo_le_52:
  assumes "0 < x" "x < 2 ^ 53"
  shows "max (expo 1100 x) (- 1022) \<le> 52"
proof (cases "x < 1")
  case True
  with assms(1) have "expo 1100 x \<le> 0" by (rule expo_small)
  then show ?thesis by simp
next
  case False
  have "(2::real) powi (- int 1100) \<le> 2 powi 0" by (intro power_int_increasing) simp_all
  with False have "2 powi (- int 1100) \<le> x" by simp
  with assms(1) have "2 powi (expo 1100 x) \<le> x" by (rule expo_lower)
  moreover have "x < 2 powi 53" using assms(2) by simp
  ultimately have "expo 1100 x < 53" by (rule pow2_less_exp)
  then show ?thesis by simp
qed

lemma fl_le_int:
  assumes "0 \<le> x" "x \<le> of_int n" "n < 2 ^ 53"
  shows "fl x \<le> of_int n"
proof (cases "x = 0")
  case True
  with assms show ?thesis by simp
next
  case False
  with assms(1) have x: "0 < x" by simp
  have "x < 2 ^ 53"
  proof -
    have "real_of_int n < real_of_int (2 ^ 53)" using assms(3) by (simp only: of_int_less_iff)
    with assms(2) show ?thesis by simp
  qed
  with x have e: "max (expo 1100 x) (- 1022) \<le> 52" by (rule expo_le_52)
  define k where "k = nat (52 - max (expo 1100 x) (- 1022))"
  define q :: real where "q = 2 powi (max (expo 1100 x) (- 1022) - 52)"
  have q: "0 < q" by (simp add: q_def)
  have "max (expo 1100 x) (- 1022) - 52 = - int k" using e by (simp add: k_def)
  then have qk: "q = 1 / 2 ^ k" by (simp add: q_def power_int_minus_divide)
  have f: "fl x = of_int (round_even (x / q)) * q" using fl_pos [OF x] by (simp add: q_def)
  have "x / q \<le> of_int n / q" using assms(2) q by (simp add: divide_right_mono)
  also have "of_int n / q = of_int (n * 2 ^ k)" by (simp add: qk)
  finally have "round_even (x / q) \<le> n * 2 ^ k" by (rule round_even_le)
  then have "real_of_int (round_even (x / q)) \<le> real_of_int (n * 2 ^ k)" by (simp only: of_int_le_iff)
  then have "fl x \<le> real_of_int (n * 2 ^ k) * q" unfolding f using q by (intro mult_right_mono) simp_all
  also have "\<dots> = of_int n" by (simp add: qk)
  finally show ?thesis .
qed

lemma fl_int:
  assumes "0 \<le> n" "n < 2 ^ 53"
  shows "fl (of_int n) = of_int n"
proof (cases "n = 0")
  case True
  then show ?thesis by simp
next
  case False
  with assms(1) have x: "0 < real_of_int n" by simp
  have "real_of_int n < real_of_int (2 ^ 53)" using assms(2) by (simp only: of_int_less_iff)
  then have "real_of_int n < 2 ^ 53" by simp
  with x have e: "max (expo 1100 (of_int n)) (- 1022) \<le> 52" by (rule expo_le_52)
  define k where "k = nat (52 - max (expo 1100 (real_of_int n)) (- 1022))"
  define q :: real where "q = 2 powi (max (expo 1100 (real_of_int n)) (- 1022) - 52)"
  have "max (expo 1100 (real_of_int n)) (- 1022) - 52 = - int k" using e by (simp add: k_def)
  then have qk: "q = 1 / 2 ^ k" by (simp add: q_def power_int_minus_divide)
  have f: "fl (of_int n) = of_int (round_even (of_int n / q)) * q"
    using fl_pos [OF x] by (simp add: q_def)
  have "real_of_int n / q = of_int (n * 2 ^ k)" by (simp add: qk)
  then have "round_even (of_int n / q) = n * 2 ^ k" by (simp only: round_even_of_int)
  then show ?thesis unfolding f by (simp add: qk)
qed

section \<open>Manual mode in binary64 arithmetic\<close>

lemma rel_error_bounds:
  fixes t y :: real
  assumes "\<bar>t - y\<bar> \<le> y / 2 ^ 53"
  shows "y - y / 2 ^ 53 \<le> t" "t \<le> y + y / 2 ^ 53"
proof -
  have "t - y \<le> y / 2 ^ 53" "- (t - y) \<le> y / 2 ^ 53"
    using assms(1) by (rule abs_le_D1, rule abs_le_D2)
  then show "y - y / 2 ^ 53 \<le> t" "t \<le> y + y / 2 ^ 53" by simp_all
qed

lemma two_roundings_error:
  fixes t y X :: real
  assumes "\<bar>t - y\<bar> \<le> y / 2 ^ 53" "\<bar>y - X\<bar> \<le> X / 2 ^ 53" "0 < X"
  shows "\<bar>t - X\<bar> \<le> X / 2 ^ 51"
proof -
  note a = rel_error_bounds [OF assms(1)] and b = rel_error_bounds [OF assms(2)]
  from a b assms(3) have "t - X \<le> X / 2 ^ 51" "- (t - X) \<le> X / 2 ^ 51" by simp_all
  then show ?thesis by (rule abs_leI)
qed

lemma two_roundings_below:
  fixes t y X D x0 :: real
  assumes "t \<le> y + y / 2 ^ 53" "y \<le> X + X / 2 ^ 53" "X \<le> D - x0" "D \<le> 2 ^ 32 * x0" "0 < x0"
  shows "t < D"
  using assms by simp

lemma roundings_separate:
  fixes ti tj yi yj c :: real
  assumes "ti \<le> yi + yi / 2 ^ 53" "yj - yj / 2 ^ 53 \<le> tj"
    "yi + c \<le> yj" "yi \<le> 2 ^ 32 * c" "yj \<le> 2 ^ 32 * c" "0 < c"
  shows "ti < tj"
  using assms by simp

lemma equal64_interval:
  assumes "N < 2 ^ 32" "2 powi (- 1022) \<le> D / real_of_int (N + 1)" "D < 2 powi 1024"
    and d: "0 < D"
  shows "0 \<le> N"
    and "fl (real_of_int N + 1) = real_of_int (N + 1)"
    and "\<bar>fl (D / real_of_int (N + 1)) - D / real_of_int (N + 1)\<bar> \<le> D / real_of_int (N + 1) / 2 ^ 53"
    and "2 powi (- 1022) \<le> fl (D / real_of_int (N + 1))"
    and "D \<le> 2 ^ 32 * (D / real_of_int (N + 1))"
    and "D / real_of_int (N + 1) < 2 powi 1024"
proof -
  have p: "(0::real) < 2 powi (- 1022)" by simp
  with assms(2) have x0: "0 < D / real_of_int (N + 1)" by linarith
  have "0 < real_of_int (N + 1)"
    using x0 d by (simp add: zero_less_divide_iff)
  then show n: "0 \<le> N" by simp
  then have n1: "1 \<le> real_of_int (N + 1)" by simp
  have "fl (real_of_int (N + 1)) = real_of_int (N + 1)"
    using n assms(1) by (intro fl_int) simp_all
  then show "fl (real_of_int N + 1) = real_of_int (N + 1)" by simp
  have "D / real_of_int (N + 1) \<le> D / 1" using n1 d by (intro divide_left_mono) simp_all
  with assms(3) show u: "D / real_of_int (N + 1) < 2 powi 1024" by simp
  from assms(2) u
  show "\<bar>fl (D / real_of_int (N + 1)) - D / real_of_int (N + 1)\<bar> \<le> D / real_of_int (N + 1) / 2 ^ 53"
    by (rule fl_error)
  from assms(2) u show "2 powi (- 1022) \<le> fl (D / real_of_int (N + 1))"
    by (intro fl_ge_pow2) simp_all
  have "N + 1 \<le> 2 ^ 32" using assms(1) by simp
  then have "real_of_int (N + 1) \<le> real_of_int (2 ^ 32)" by (simp only: of_int_le_iff)
  then have "real_of_int (N + 1) * (D / real_of_int (N + 1)) \<le> 2 ^ 32 * (D / real_of_int (N + 1))"
    using x0 by (intro mult_right_mono) simp_all
  then show "D \<le> 2 ^ 32 * (D / real_of_int (N + 1))" using n1 by simp
qed

lemma equal64_point:
  assumes "N < 2 ^ 32" "2 powi (- 1022) \<le> D / real_of_int (N + 1)" "D < 2 powi 1024"
    and "0 < D" and "1 \<le> i" "i \<le> N"
  defines "c \<equiv> fl (D / real_of_int (N + 1))"
  shows "\<bar>fl (real_of_int i * c) - real_of_int i * c\<bar> \<le> real_of_int i * c / 2 ^ 53"
    and "\<bar>real_of_int i * c - real_of_int i * D / real_of_int (N + 1)\<bar>
           \<le> real_of_int i * D / real_of_int (N + 1) / 2 ^ 53"
    and "real_of_int i * D / real_of_int (N + 1) \<le> D - D / real_of_int (N + 1)"
    and "0 < c" and "real_of_int i * c \<le> 2 ^ 32 * c"
proof -
  note iv = equal64_interval [OF assms(1-4)]
  define x0 where "x0 = D / real_of_int (N + 1)"
  have x0: "0 < x0" using assms(2) unfolding x0_def by (rule less_le_trans [rotated]) simp
  have i: "1 \<le> real_of_int i" "real_of_int i \<le> real_of_int N" using assms(5,6) by simp_all
  have cx: "\<bar>c - x0\<bar> \<le> x0 / 2 ^ 53" using iv(3) by (simp add: c_def x0_def)
  have cl: "2 powi (- 1022) \<le> c" using iv(4) by (simp add: c_def)
  show c: "0 < c" using cl by (rule less_le_trans [rotated]) simp
  have "real_of_int i * \<bar>c - x0\<bar> \<le> real_of_int i * (x0 / 2 ^ 53)"
    using cx i(1) by (intro mult_left_mono) simp_all
  then have yx: "\<bar>real_of_int i * c - real_of_int i * x0\<bar> \<le> real_of_int i * x0 / 2 ^ 53"
    using i(1) by (simp add: abs_mult flip: right_diff_distrib)
  then show "\<bar>real_of_int i * c - real_of_int i * D / real_of_int (N + 1)\<bar>
           \<le> real_of_int i * D / real_of_int (N + 1) / 2 ^ 53"
    by (simp add: x0_def)
  have "real_of_int (N + 1) * x0 = D" using iv(1) by (simp add: x0_def)
  then have nx: "real_of_int N * x0 = D - x0" by (simp add: algebra_simps)
  have "real_of_int i * x0 \<le> real_of_int N * x0" using i(2) x0 by (intro mult_right_mono) simp_all
  with nx have X: "real_of_int i * x0 \<le> D - x0" by simp
  then show "real_of_int i * D / real_of_int (N + 1) \<le> D - D / real_of_int (N + 1)"
    by (simp add: x0_def)
  have "real_of_int i \<le> 2 ^ 32"
  proof -
    have "i \<le> 2 ^ 32" using assms(1,6) by simp
    then have "real_of_int i \<le> real_of_int (2 ^ 32)" by (simp only: of_int_le_iff)
    then show ?thesis by simp
  qed
  then show "real_of_int i * c \<le> 2 ^ 32 * c" using c by (intro mult_right_mono) simp_all
  have lo: "2 powi (- 1022) \<le> real_of_int i * c"
  proof -
    have "1 * c \<le> real_of_int i * c" using i(1) c by (intro mult_right_mono) simp_all
    then have "c \<le> real_of_int i * c" by (simp only: mult_1)
    with cl show ?thesis by (rule order_trans)
  qed
  have dx: "D \<le> 2 ^ 32 * x0" using iv(5) by (simp add: x0_def)
  have h1: "real_of_int i * c \<le> real_of_int i * x0 + real_of_int i * x0 / 2 ^ 53"
    using yx by (rule rel_error_bounds(2))
  have h2: "real_of_int i * x0 \<le> real_of_int i * x0 + real_of_int i * x0 / 2 ^ 53"
    using x0 i(1) by simp
  have "real_of_int i * c < D"
    by (rule two_roundings_below [OF h1 h2 X dx x0])
  then have hi: "real_of_int i * c < 2 powi 1024" using assms(3) by (rule less_trans)
  from lo hi show "\<bar>fl (real_of_int i * c) - real_of_int i * c\<bar> \<le> real_of_int i * c / 2 ^ 53"
    by (rule fl_error)
qed

lemma equal64_bounds:
  assumes "N < 2 ^ 32" "2 powi (- 1022) \<le> D / real_of_int (N + 1)" "D < 2 powi 1024"
    and "0 < D" and "1 \<le> i" "i \<le> N"
  defines "t \<equiv> fl (real_of_int i * fl (D / real_of_int (N + 1)))"
  shows "\<bar>t - real_of_int i * D / real_of_int (N + 1)\<bar>
           \<le> real_of_int i * D / real_of_int (N + 1) / 2 ^ 51"
    and "0 < t" and "t < D"
proof -
  note iv = equal64_interval [OF assms(1-4)]
  note pt = equal64_point [OF assms(1-6)]
  define X where "X = real_of_int i * D / real_of_int (N + 1)"
  define y where "y = real_of_int i * fl (D / real_of_int (N + 1))"
  define x0 where "x0 = D / real_of_int (N + 1)"
  have a: "\<bar>t - y\<bar> \<le> y / 2 ^ 53" using pt(1) by (simp add: t_def y_def)
  have b: "\<bar>y - X\<bar> \<le> X / 2 ^ 53" using pt(2) by (simp add: y_def X_def)
  have X: "X \<le> D - x0" using pt(3) by (simp add: X_def x0_def)
  have dx: "D \<le> 2 ^ 32 * x0" using iv(5) by (simp add: x0_def)
  have x0: "0 < x0" using assms(2) unfolding x0_def by (rule less_le_trans [rotated]) simp
  have y: "0 < y" using pt(4) assms(5) by (simp add: y_def)
  have Xp: "0 < X" using assms(4) iv(1) assms(5) by (simp add: X_def)
  show "\<bar>t - real_of_int i * D / real_of_int (N + 1)\<bar>
           \<le> real_of_int i * D / real_of_int (N + 1) / 2 ^ 51"
    using a b Xp unfolding X_def [symmetric] by (rule two_roundings_error)
  have "y - y / 2 ^ 53 \<le> t" using a by (rule rel_error_bounds(1))
  moreover have "0 < y - y / 2 ^ 53" using y by simp
  ultimately show "0 < t" by linarith
  have "t \<le> y + y / 2 ^ 53" using a by (rule rel_error_bounds(2))
  moreover have "y \<le> X + X / 2 ^ 53" using b by (rule rel_error_bounds(2))
  ultimately show "t < D" using X dx x0 by (rule two_roundings_below)
qed

lemma equal64_less:
  assumes "N < 2 ^ 32" "2 powi (- 1022) \<le> D / real_of_int (N + 1)" "D < 2 powi 1024"
    and "0 < D" and "1 \<le> i" "i < j" "j \<le> N"
  shows "fl (real_of_int i * fl (D / real_of_int (N + 1)))
       < fl (real_of_int j * fl (D / real_of_int (N + 1)))"
proof -
  define c where "c = fl (D / real_of_int (N + 1))"
  have pi: "\<bar>fl (real_of_int i * c) - real_of_int i * c\<bar> \<le> real_of_int i * c / 2 ^ 53"
    and c: "0 < c" and bi: "real_of_int i * c \<le> 2 ^ 32 * c"
    using equal64_point [OF assms(1-5), of ] assms(6,7) by (simp_all add: c_def)
  have pj: "\<bar>fl (real_of_int j * c) - real_of_int j * c\<bar> \<le> real_of_int j * c / 2 ^ 53"
    and bj: "real_of_int j * c \<le> 2 ^ 32 * c"
    using equal64_point [OF assms(1-4) _ assms(7)] assms(5,6) by (simp_all add: c_def)
  have "real_of_int i + 1 \<le> real_of_int j" using assms(6) by linarith
  then have "(real_of_int i + 1) * c \<le> real_of_int j * c" using c by (intro mult_right_mono) simp_all
  then have d: "real_of_int i * c + c \<le> real_of_int j * c" by (simp add: algebra_simps)
  have "fl (real_of_int i * c) \<le> real_of_int i * c + real_of_int i * c / 2 ^ 53"
    using pi by (rule rel_error_bounds(2))
  moreover have "real_of_int j * c - real_of_int j * c / 2 ^ 53 \<le> fl (real_of_int j * c)"
    using pj by (rule rel_error_bounds(1))
  ultimately show ?thesis
    unfolding c_def [symmetric] using d bi bj c by (rule roundings_separate)
qed

lemma extractFrames64_Inr:
  "extractFrames64 (Some v) po = Inr frames
     \<longleftrightarrow> frames = captureFrames v (selectTimestamps64 v (resolveOptions po))"
  by (auto simp: extractFrames64_def)

text \<open>
  Claim C4, amended. In manual mode, for a video of duration \<open>D > 0\<close> and \<open>maxFrames = N\<close>
  (with \<open>N < 2^32\<close>, \<open>D\<close> below \<open>2 powi 1024\<close> and \<open>D / (N + 1)\<close> not below the smallest
  normal binary64 number), the timestamps of the extracted frames are the binary64 numbers
  \<open>fl (i * fl (D / (N + 1)))\<close> for \<open>i = 1..N\<close>: the interval and every product are rounded, in
  the order of the code. Each of them differs from \<open>i\<cdot>D/(N+1)\<close> by at most that value divided
  by \<open>2^51\<close>; they are strictly ascending and strictly between \<open>0\<close> and \<open>D\<close>, and every frame
  carries \<open>changeScore = 0\<close>.
\<close>

theorem manual_mode_timestamps64:
  assumes "extractFrames64 (Some v) po = Inr frames"
    and "mode (resolveOptions po) = Manual"
    and "duration v = D" and "maxFrames (resolveOptions po) = N"
    and "N < 2 ^ 32"
    and "2 powi (- 1022) \<le> D / real_of_int (N + 1)" and "D < 2 powi 1024"
    and "0 < D"
  shows "map timestamp frames
           = map (\<lambda>i. fl (real_of_int i * fl (D / real_of_int (N + 1)))) [1..N]
       \<and> (\<forall>i \<in> {1..N}. \<bar>fl (real_of_int i * fl (D / real_of_int (N + 1)))
                              - real_of_int i * D / real_of_int (N + 1)\<bar>
                          \<le> real_of_int i * D / real_of_int (N + 1) / 2 ^ 51)
       \<and> sorted_wrt (<) (map timestamp frames)
       \<and> (\<forall>f \<in> set frames. changeScore f = 0 \<and> 0 < timestamp f \<and> timestamp f < D)"
proof -
  let ?t = "\<lambda>i. fl (real_of_int i * fl (D / real_of_int (N + 1)))"
  note iv = equal64_interval [OF assms(5-8)]
  from assms(1-4) have fr: "frames = captureFrames v (generateEqualIntervals64 D N)"
    by (simp add: extractFrames64_Inr selectTimestamps64_def)
  have g: "generateEqualIntervals64 D N = map (\<lambda>i. \<lparr>timestamp = ?t i, changeScore = 0\<rparr>) [1..N]"
    by (simp add: generateEqualIntervals64_def Let_def iv(2))
  have a: "map timestamp frames = map ?t [1..N]"
    by (simp add: fr g captureFrames_def o_def)
  have b: "\<forall>i \<in> {1..N}. \<bar>?t i - real_of_int i * D / real_of_int (N + 1)\<bar>
                          \<le> real_of_int i * D / real_of_int (N + 1) / 2 ^ 51"
    using equal64_bounds(1) [OF assms(5-8)] by simp
  have "sorted_wrt (\<lambda>i j. ?t i < ?t j) [1..N]"
  proof (rule sorted_wrt_mono_rel [OF _ sorted_wrt_upto])
    fix i j assume "i \<in> set [1..N]" "j \<in> set [1..N]" "i < j"
    then show "?t i < ?t j" by (intro equal64_less [OF assms(5-8)]) simp_all
  qed
  then have c: "sorted_wrt (<) (map timestamp frames)" by (simp add: a sorted_wrt_map)
  have d: "\<forall>f \<in> set frames. changeScore f = 0 \<and> 0 < timestamp f \<and> timestamp f < D"
  proof
    fix f assume "f \<in> set frames"
    then obtain i where i: "1 \<le> i" "i \<le> N" and f: "timestamp f = ?t i" "changeScore f = 0"
      by (auto simp: fr g captureFrames_def)
    show "changeScore f = 0 \<and> 0 < timestamp f \<and> timestamp f < D"
      using equal64_bounds(2,3) [OF assms(5-8) i] f by simp
  qed
  from a b c d show ?thesis by blast
qed

theorem manual_mode_timestamps64_witness:
  "\<exists>frames. extractFrames64 (Some demoVideo) demoManual = Inr frames
     \<and> mode (resolveOptions demoManual) = Manual
     \<and> duration demoVideo = 12 \<and> maxFrames (resolveOptions demoManual) = 3
     \<and> map timestamp frames = [3, 6, 9]
     \<and> sorted_wrt (<) (map timestamp frames)"
proof -
  obtain frames where e: "extractFrames64 (Some demoVideo) demoManual = Inr frames"
    by (simp add: extractFrames64_def)
  have m: "mode (resolveOptions demoManual) = Manual"
    by (simp add: resolveOptions_def demoManual_def)
  have d: "duration demoVideo = 12" by (simp add: demoVideo_def)
  have n: "maxFrames (resolveOptions demoManual) = 3"
    by (simp add: resolveOptions_def demoManual_def)
  have h: "(3::int) < 2 ^ 32" "2 powi (- 1022) \<le> (12::real) / real_of_int (3 + 1)"
    "(12::real) < 2 powi 1024" "(0::real) < 12"
    by simp_all
  note th = manual_mode_timestamps64 [OF e m d n h]
  have f: "fl 3 = 3" "fl 6 = 6" "fl 9 = 9"
    using fl_int [of 3] fl_int [of 6] fl_int [of 9] by simp_all
  from th have "map timestamp frames = [3, 6, 9]"
    by (simp add: upto_rec1 f)
  moreover from th have "sorted_wrt (<) (map timestamp frames)"
    by (elim conjE)
  ultimately show ?thesis using e m d n by (intro exI [of _ frames]) simp
qed

text \<open>The timestamps for duration \<open>1\<close> and nine frames: the third, sixth and seventh are
  not the binary64 numbers nearest to \<open>3/10\<close>, \<open>6/10\<close> and \<open>7/10\<close>.\<close>

lemma unit_nine_timestamps:
  "map timestamp (generateEqualIntervals64 1 9)
     = [3602879701896397 / 2 ^ 55, 3602879701896397 / 2 ^ 54, 5404319552844596 / 2 ^ 54,
        3602879701896397 / 2 ^ 53, 1 / 2, 5404319552844596 / 2 ^ 53,
        6305039478318695 / 2 ^ 53, 3602879701896397 / 2 ^ 52, 8106479329266893 / 2 ^ 53]"
proof -
  have t: "fl (real_of_int 9 + 1) = 10" using fl_int [of 10] by simp
  have c: "fl (1 / 10) = 3602879701896397 / 2 ^ 55"
    by (simp add: fl_def expo.simps round_even_def Let_def)
  show ?thesis
    by (simp add: generateEqualIntervals64_def Let_def t c upto_rec1 o_def)
       (simp add: fl_def expo.simps round_even_def Let_def)
qed

text \<open>
  Claim C4, as stated, asks for the timestamps \<open>i\<cdot>D/(N+1)\<close> exactly. For \<open>D = 1\<close> and
  \<open>N = 9\<close> the third timestamp of the manual-mode run is \<open>5404319552844596 / 2^54\<close>
  (printed \<^verbatim>\<open>0.30000000000000004\<close>), which is neither \<open>3 \<cdot> 1 / (9 + 1)\<close> nor the binary64
  number nearest to it.
\<close>

theorem manual_exact_counterexample:
  "mode (resolveOptions nineManual) = Manual \<and> duration unitVideo = 1
   \<and> maxFrames (resolveOptions nineManual) = 9
   \<and> extractFrames64 (Some unitVideo) nineManual
       = Inr (captureFrames unitVideo (generateEqualIntervals64 1 9))
   \<and> map timestamp (captureFrames unitVideo (generateEqualIntervals64 1 9)) ! 2
       = 5404319552844596 / 2 ^ 54
   \<and> (5404319552844596 / 2 ^ 54 :: real) \<noteq> 3 * 1 / (9 + 1)
   \<and> fl (3 * 1 / (9 + 1)) = 5404319552844595 / 2 ^ 54
   \<and> map timestamp (captureFrames unitVideo (generateEqualIntervals64 1 9))
       \<noteq> map (\<lambda>i. real_of_int i * 1 / real_of_int (9 + 1)) [1..9]"
proof -
  have n: "fl (3 * 1 / (9 + 1)) = 5404319552844595 / 2 ^ 54"
    by (simp add: fl_def expo.simps round_even_def Let_def)
  have o: "resolveOptions nineManual = \<lparr>mode = Manual, maxFrames = 9, sensitivity = 3 / 100\<rparr>"
    by (simp add: resolveOptions_def nineManual_def DEFAULT_OPTIONS_def)
  have d: "duration unitVideo = 1" by (simp add: unitVideo_def)
  have e: "extractFrames64 (Some unitVideo) nineManual
       = Inr (captureFrames unitVideo (generateEqualIntervals64 1 9))"
    by (simp add: extractFrames64_def selectTimestamps64_def o d)
  have t: "map timestamp (captureFrames unitVideo (generateEqualIntervals64 1 9))
     = [3602879701896397 / 2 ^ 55, 3602879701896397 / 2 ^ 54, 5404319552844596 / 2 ^ 54,
        3602879701896397 / 2 ^ 53, 1 / 2, 5404319552844596 / 2 ^ 53,
        6305039478318695 / 2 ^ 53, 3602879701896397 / 2 ^ 52, 8106479329266893 / 2 ^ 53]"
    by (simp only: timestamp_captureFrames unit_nine_timestamps)
  have "map timestamp (captureFrames unitVideo (generateEqualIntervals64 1 9)) ! 2
       = 5404319552844596 / 2 ^ 54"
    unfolding t by simp
  moreover have "map timestamp (captureFrames unitVideo (generateEqualIntervals64 1 9))
       \<noteq> map (\<lambda>i. real_of_int i * 1 / real_of_int (9 + 1)) [1..9]"
    unfolding t by (simp add: upto_rec1)
  ultimately show ?thesis using e d n by (simp add: o)
qed


section \<open>Raster differencer in binary64 arithmetic\<close>

lemma fl_of_nat:
  assumes "n < 2 ^ 53"
  shows "fl (real n) = real n"
proof -
  have "int n < int (2 ^ 53)" using assms by (simp only: of_nat_less_iff)
  then have "int n < 2 ^ 53" by simp
  then have "fl (real_of_int (int n)) = real_of_int (int n)" by (intro fl_int) simp_all
  then show ?thesis by simp
qed

lemma channel_nat: "\<exists>n. channel p k c = real n \<and> n < 256"
proof -
  have "unat (p ! (4 * k + c)) < 2 ^ 8"
    using unsigned_less [of "p ! (4 * k + c)", where ?'a = nat] by simp
  then have "unat (p ! (4 * k + c)) < 256" by simp
  then show ?thesis unfolding channel_def by blast
qed

lemma px_channel: "4 * k + c < length p \<Longrightarrow> px p (4 * k + c) = Finite (channel p k c)"
  by (simp add: px_def channel_def)

lemma nat_diff64:
  fixes x y :: nat
  assumes "x < 256" "y < 256"
  shows "\<exists>m. \<bar>real x - real y\<bar> = real_of_int m \<and> \<bar>fl (real x - real y)\<bar> = real_of_int m
             \<and> 0 \<le> m \<and> m \<le> 255"
proof -
  define m where "m = \<bar>int x - int y\<bar>"
  have m: "0 \<le> m" "m \<le> 255" "m < 2 ^ 53" using assms by (simp_all add: m_def)
  have e: "\<bar>real x - real y\<bar> = real_of_int m" by (simp add: m_def)
  have "fl (real_of_int m) = real_of_int m" using m(1,3) by (rule fl_int)
  then have "\<bar>fl (real x - real y)\<bar> = real_of_int m" by (simp only: fl_abs e)
  with e m show ?thesis by blast
qed

lemma channel_diff64:
  "\<exists>m. \<bar>channel p1 k c - channel p2 k c\<bar> = real_of_int m
       \<and> \<bar>fl (channel p1 k c - channel p2 k c)\<bar> = real_of_int m \<and> 0 \<le> m \<and> m \<le> 255"
proof -
  obtain x y where "channel p1 k c = real x" "x < 256" "channel p2 k c = real y" "y < 256"
    using channel_nat [of p1 k c] channel_nat [of p2 k c] by blast
  then show ?thesis using nat_diff64 [of x y] by simp
qed

lemma pixelDiff_int:
  "\<exists>m. pixelDiff p1 p2 k = real_of_int m \<and> 0 \<le> m \<and> m \<le> 765"
proof -
  obtain a b c where
    "\<bar>channel p1 k 0 - channel p2 k 0\<bar> = real_of_int a" "0 \<le> a" "a \<le> 255"
    "\<bar>channel p1 k 1 - channel p2 k 1\<bar> = real_of_int b" "0 \<le> b" "b \<le> 255"
    "\<bar>channel p1 k 2 - channel p2 k 2\<bar> = real_of_int c" "0 \<le> c" "c \<le> 255"
    using channel_diff64 [of p1 k 0 p2] channel_diff64 [of p1 k 1 p2]
      channel_diff64 [of p1 k 2 p2] by blast
  then show ?thesis
    by (intro exI [of _ "a + b + c"]) (simp add: pixelDiff_def)
qed

lemma pixel_sum64:
  fixes a b c :: int
  assumes "0 \<le> a" "a \<le> 255" "0 \<le> b" "b \<le> 255" "0 \<le> c" "c \<le> 255"
  shows "fl (fl (real_of_int a + real_of_int b) + real_of_int c) = real_of_int (a + b + c)"
proof -
  have "fl (real_of_int (a + b)) = real_of_int (a + b)" using assms by (intro fl_int) simp_all
  moreover have "fl (real_of_int (a + b + c)) = real_of_int (a + b + c)"
    using assms by (intro fl_int) simp_all
  ultimately show ?thesis by simp
qed

lemma diffLoop64_NaN: "diffLoop64 p1 p2 i NaN = NaN"
  by (induction p1 p2 i NaN rule: diffLoop64.induct) (subst diffLoop64.simps, simp add: Let_def)

lemma diffLoop64_step:
  assumes "4 * k + 3 < length p1" "4 * k + 2 < length p2"
  shows "diffLoop64 p1 p2 (4 * k) (Finite t)
       = diffLoop64 p1 p2 (4 * Suc k) (Finite (fl (t + fl (pixelDiff p1 p2 k / (3 * 255)))))"
proof -
  obtain a b c where abc:
    "\<bar>channel p1 k 0 - channel p2 k 0\<bar> = real_of_int a"
    "\<bar>fl (channel p1 k 0 - channel p2 k 0)\<bar> = real_of_int a" "0 \<le> a" "a \<le> 255"
    "\<bar>channel p1 k 1 - channel p2 k 1\<bar> = real_of_int b"
    "\<bar>fl (channel p1 k 1 - channel p2 k 1)\<bar> = real_of_int b" "0 \<le> b" "b \<le> 255"
    "\<bar>channel p1 k 2 - channel p2 k 2\<bar> = real_of_int c"
    "\<bar>fl (channel p1 k 2 - channel p2 k 2)\<bar> = real_of_int c" "0 \<le> c" "c \<le> 255"
    using channel_diff64 [of p1 k 0 p2] channel_diff64 [of p1 k 1 p2]
      channel_diff64 [of p1 k 2 p2] by blast
  have r: "px p1 (4 * k) = Finite (channel p1 k 0)" "px p2 (4 * k) = Finite (channel p2 k 0)"
    using px_channel [of k 0 p1] px_channel [of k 0 p2] assms by simp_all
  have g: "px p1 (4 * k + 1) = Finite (channel p1 k 1)" "px p2 (4 * k + 1) = Finite (channel p2 k 1)"
    using px_channel [of k 1 p1] px_channel [of k 1 p2] assms by simp_all
  have b: "px p1 (4 * k + 2) = Finite (channel p1 k 2)" "px p2 (4 * k + 2) = Finite (channel p2 k 2)"
    using px_channel [of k 2 p1] px_channel [of k 2 p2] assms by simp_all
  have s: "fl (fl (real_of_int a + real_of_int b) + real_of_int c) = pixelDiff p1 p2 k"
    using pixel_sum64 [of a b c] abc by (simp add: pixelDiff_def)
  have i: "4 * k < length p1" using assms(1) by simp
  have n: "4 * k + 4 = 4 * Suc k" by simp
  show ?thesis
    by (subst diffLoop64.simps)
       (simp only: i if_True Let_def r g b absDiff64.simps abc plus64.simps s div_const64.simps n)
qed

lemma diffLoop64_acc:
  assumes "length p1 = 4 * P" "length p1 \<le> length p2" "k \<le> P"
  shows "diffLoop64 p1 p2 (4 * k) (Finite (acc64 p1 p2 k)) = Finite (acc64 p1 p2 P)"
  using assms(3)
proof (induction "P - k" arbitrary: k)
  case 0
  then have "k = P" by simp
  then show ?case using assms(1) by (subst diffLoop64.simps) simp
next
  case (Suc n)
  then have k: "k < P" "n = P - Suc k" "Suc k \<le> P" by simp_all
  have "diffLoop64 p1 p2 (4 * k) (Finite (acc64 p1 p2 k))
      = diffLoop64 p1 p2 (4 * Suc k) (Finite (acc64 p1 p2 (Suc k)))"
    using assms(1,2) k(1) by (subst diffLoop64_step) simp_all
  also have "\<dots> = Finite (acc64 p1 p2 P)" by (rule Suc.hyps(1) [OF k(2) k(3)])
  finally show ?case .
qed

lemma calculateFrameDifference64_acc:
  assumes "length p1 = 4 * P" "length p1 \<le> length p2" "0 < P" "4 * P < 2 ^ 53"
  shows "calculateFrameDifference64 p1 p2 = Finite (fl (acc64 p1 p2 P / real P))"
proof -
  have "diffLoop64 p1 p2 (4 * 0) (Finite (acc64 p1 p2 0)) = Finite (acc64 p1 p2 P)"
    using assms(1,2) by (intro diffLoop64_acc) simp_all
  then have d: "diffLoop64 p1 p2 0 (Finite 0) = Finite (acc64 p1 p2 P)" by simp
  have "P < 2 ^ 53" using assms(4) by simp
  then have "fl (real P) = real P" by (rule fl_of_nat)
  then have "fl (real (length p1) / 4) = real P" using assms(1) by simp
  then show ?thesis using assms(3) by (simp add: calculateFrameDifference64_def d)
qed

lemma quotient64_bounds:
  "0 \<le> fl (pixelDiff p1 p2 k / (3 * 255))" "fl (pixelDiff p1 p2 k / (3 * 255)) \<le> 1"
proof -
  have b: "0 \<le> pixelDiff p1 p2 k / (3 * 255)" "pixelDiff p1 p2 k / (3 * 255) \<le> real_of_int 1"
    using pixelDiff_bounds [of p1 p2 k] by simp_all
  show "0 \<le> fl (pixelDiff p1 p2 k / (3 * 255))" using b(1) by (rule fl_nonneg)
  have "fl (pixelDiff p1 p2 k / (3 * 255)) \<le> real_of_int 1" using b by (rule fl_le_int) simp
  then show "fl (pixelDiff p1 p2 k / (3 * 255)) \<le> 1" by simp
qed

lemma acc64_bounds':
  "k < 2 ^ 53 \<Longrightarrow> 0 \<le> acc64 p1 p2 k \<and> acc64 p1 p2 k \<le> real k"
proof (induction k)
  case 0
  show ?case by simp
next
  case (Suc k)
  from Suc.prems have k: "k < 2 ^ 53" by simp
  note ih = Suc.IH [OF k]
  note q = quotient64_bounds [of p1 p2 k]
  have nn: "0 \<le> acc64 p1 p2 k + fl (pixelDiff p1 p2 k / (3 * 255))" using ih q(1) by simp
  have le: "acc64 p1 p2 k + fl (pixelDiff p1 p2 k / (3 * 255)) \<le> real_of_int (int (Suc k))"
    using ih q(2) by simp
  have "int (Suc k) < int (2 ^ 53)" using Suc.prems by (simp only: of_nat_less_iff)
  then have "int (Suc k) < 2 ^ 53" by simp
  with nn le have "fl (acc64 p1 p2 k + fl (pixelDiff p1 p2 k / (3 * 255))) \<le> real_of_int (int (Suc k))"
    by (rule fl_le_int)
  moreover have "0 \<le> fl (acc64 p1 p2 k + fl (pixelDiff p1 p2 k / (3 * 255)))"
    using nn by (rule fl_nonneg)
  ultimately show ?case by simp
qed

lemmas acc64_bounds = acc64_bounds' [THEN conjunct1] acc64_bounds' [THEN conjunct2]

lemma fl_error0:
  assumes "x = 0 \<or> 2 powi (- 1022) \<le> x" "x < 2 powi 1024"
  shows "\<bar>fl x - x\<bar> \<le> x / 2 ^ 53"
proof (cases "x = 0")
  case True
  then show ?thesis by simp
next
  case False
  with assms(1) have "2 powi (- 1022) \<le> x" by simp
  then show ?thesis using assms(2) by (rule fl_error)
qed

lemma small_pow: "(2::real) powi (- 1022) \<le> 2 powi (- 61)" "(2::real) powi (- 61) \<le> 2 powi (- 10)"
  by (intro power_int_increasing; simp)+

lemma below_pow:
  fixes x :: real and n :: nat
  assumes "x \<le> real n" "n < 2 ^ 53"
  shows "x < 2 powi 1024"
proof -
  have "real n < real (2 ^ 53)" using assms(2) by (simp only: of_nat_less_iff)
  then have "x < 2 powi 53" using assms(1) by simp
  moreover have "(2::real) powi 53 \<le> 2 powi 1024" by (intro power_int_increasing) simp_all
  ultimately show ?thesis by (rule less_le_trans)
qed

lemma quotient64_error:
  defines "s \<equiv> \<lambda>p1 p2 k. pixelDiff p1 p2 k / (3 * 255)"
  shows "\<bar>fl (s p1 p2 k) - s p1 p2 k\<bar> \<le> s p1 p2 k / 2 ^ 53"
    and "fl (s p1 p2 k) = 0 \<or> 2 powi (- 10) \<le> fl (s p1 p2 k)"
proof -
  obtain m where m: "pixelDiff p1 p2 k = real_of_int m" "0 \<le> m" "m \<le> 765"
    using pixelDiff_int [of p1 p2 k] by blast
  have hi: "s p1 p2 k < 2 powi 1024"
  proof (rule below_pow [of _ 1])
    show "s p1 p2 k \<le> real 1" using m by (simp add: s_def)
  qed simp
  have z: "s p1 p2 k = 0 \<or> 2 powi (- 10) \<le> s p1 p2 k"
  proof (cases "m = 0")
    case True
    then show ?thesis using m(1) by (simp add: s_def)
  next
    case False
    with m(2) have "1 \<le> real_of_int m" by simp
    then show ?thesis using m(1) by (simp add: s_def)
  qed
  then have "s p1 p2 k = 0 \<or> 2 powi (- 1022) \<le> s p1 p2 k"
    using small_pow by (metis order_trans)
  then show "\<bar>fl (s p1 p2 k) - s p1 p2 k\<bar> \<le> s p1 p2 k / 2 ^ 53" using hi by (rule fl_error0)
  from z show "fl (s p1 p2 k) = 0 \<or> 2 powi (- 10) \<le> fl (s p1 p2 k)"
  proof
    assume "s p1 p2 k = 0"
    then show ?thesis by simp
  next
    assume "2 powi (- 10) \<le> s p1 p2 k"
    then have "2 powi (- 10) \<le> fl (s p1 p2 k)" using hi by (intro fl_ge_pow2) simp_all
    then show ?thesis ..
  qed
qed

lemma acc64_normal:
  "k < 2 ^ 53 \<Longrightarrow> acc64 p1 p2 k = 0 \<or> 2 powi (- 10) \<le> acc64 p1 p2 k"
proof (induction k)
  case 0
  show ?case by simp
next
  case (Suc k)
  from Suc.prems have k: "k < 2 ^ 53" by simp
  let ?q = "fl (pixelDiff p1 p2 k / (3 * 255))"
  note a = acc64_bounds [OF k, of p1 p2] and q = quotient64_bounds [of p1 p2 k]
  show ?case
  proof (cases "acc64 p1 p2 k = 0 \<and> ?q = 0")
    case True
    then show ?thesis by simp
  next
    case False
    then have "2 powi (- 10) \<le> acc64 p1 p2 k \<or> 2 powi (- 10) \<le> ?q"
      using Suc.IH [OF k] quotient64_error(2) [of p1 p2 k] by blast
    then have lo: "2 powi (- 10) \<le> acc64 p1 p2 k + ?q" using a(1) q(1) by linarith
    have "acc64 p1 p2 k + ?q \<le> real (Suc k)" using a(2) q(2) by simp
    then have "acc64 p1 p2 k + ?q < 2 powi 1024" using Suc.prems by (rule below_pow)
    with lo have "2 powi (- 10) \<le> fl (acc64 p1 p2 k + ?q)" by (intro fl_ge_pow2) simp_all
    then show ?thesis by simp
  qed
qed

lemma abs_chain:
  fixes a b c d :: real
  shows "\<bar>a - (c + d)\<bar> \<le> \<bar>a - b\<bar> + \<bar>b - (c + d)\<bar>"
  by linarith

lemma acc64_error:
  "k < 2 ^ 53 \<Longrightarrow>
     \<bar>acc64 p1 p2 k - (\<Sum>j < k. pixelDiff p1 p2 j) / (3 * 255)\<bar>
       \<le> real k * (real k + 3) / 2 ^ 54"
proof (induction k)
  case 0
  show ?case by simp
next
  case (Suc k)
  from Suc.prems have k: "k < 2 ^ 53" by simp
  define a where "a = acc64 p1 p2 k"
  define s where "s = pixelDiff p1 p2 k / (3 * 255)"
  define q where "q = fl s"
  define T where "T = (\<Sum>j < k. pixelDiff p1 p2 j) / (3 * 255)"
  have ab: "0 \<le> a" "a \<le> real k" using acc64_bounds [OF k, of p1 p2] by (simp_all add: a_def)
  have qb: "0 \<le> q" "q \<le> 1" using quotient64_bounds [of p1 p2 k] by (simp_all add: q_def s_def)
  have sb: "0 \<le> s" "s \<le> 1" using pixelDiff_bounds [of p1 p2 k] by (simp_all add: s_def)
  have qe: "\<bar>q - s\<bar> \<le> s / 2 ^ 53" using quotient64_error(1) [of p1 p2 k] by (simp add: q_def s_def)
  have ih: "\<bar>a - T\<bar> \<le> real k * (real k + 3) / 2 ^ 54" using Suc.IH [OF k] by (simp add: a_def T_def)
  have z: "a + q = 0 \<or> 2 powi (- 1022) \<le> a + q"
  proof -
    have "a = 0 \<or> 2 powi (- 10) \<le> a" using acc64_normal [OF k, of p1 p2] by (simp add: a_def)
    moreover have "q = 0 \<or> 2 powi (- 10) \<le> q"
      using quotient64_error(2) [of p1 p2 k] by (simp add: q_def s_def)
    ultimately have "a + q = 0 \<or> 2 powi (- 10) \<le> a + q" using ab(1) qb(1) by auto
    moreover have "(2::real) powi (- 1022) \<le> 2 powi (- 10)" using small_pow by (rule order_trans)
    ultimately show ?thesis by (metis order_trans)
  qed
  have "a + q \<le> real (Suc k)" using ab(2) qb(2) by simp
  then have hi: "a + q < 2 powi 1024" using Suc.prems by (rule below_pow)
  have fe: "\<bar>fl (a + q) - (a + q)\<bar> \<le> (a + q) / 2 ^ 53" using z hi by (rule fl_error0)
  have e1: "\<bar>fl (a + q) - (a + q)\<bar> \<le> (real k + 1) / 2 ^ 53"
  proof -
    have "(a + q) / 2 ^ 53 \<le> (real k + 1) / 2 ^ 53" using ab(2) qb(2) by (intro divide_right_mono) simp_all
    with fe show ?thesis by (rule order_trans)
  qed
  have e2: "\<bar>q - s\<bar> \<le> 1 / 2 ^ 53"
  proof -
    have "s / 2 ^ 53 \<le> 1 / 2 ^ 53" using sb(2) by (intro divide_right_mono) simp_all
    with qe show ?thesis by (rule order_trans)
  qed
  have "\<bar>fl (a + q) - (T + s)\<bar> \<le> \<bar>fl (a + q) - (a + q)\<bar> + \<bar>a - T\<bar> + \<bar>q - s\<bar>" by linarith
  also have "\<dots> \<le> (real k + 1) / 2 ^ 53 + real k * (real k + 3) / 2 ^ 54 + 1 / 2 ^ 53"
    using e1 ih e2 by (intro add_mono)
  also have "\<dots> = real (Suc k) * (real (Suc k) + 3) / 2 ^ 54"
    by (simp add: field_simps)
  finally have "\<bar>fl (a + q) - (T + s)\<bar> \<le> real (Suc k) * (real (Suc k) + 3) / 2 ^ 54" .
  moreover have "acc64 p1 p2 (Suc k) = fl (a + q)" by (simp add: a_def q_def s_def)
  moreover have "(\<Sum>j < Suc k. pixelDiff p1 p2 j) / (3 * 255) = T + s"
    by (simp add: T_def s_def add_divide_distrib)
  ultimately show ?case by (simp only:)
qed

lemma acc64_zero:
  "(\<forall>j < k. pixelDiff p1 p2 j = 0) \<Longrightarrow> acc64 p1 p2 k = 0"
  by (induction k) simp_all

lemma fl_one [simp]: "fl 1 = 1"
  using fl_int [of 1] by simp

lemma acc64_full:
  "k < 2 ^ 53 \<Longrightarrow> (\<forall>j < k. pixelDiff p1 p2 j = 3 * 255) \<Longrightarrow> acc64 p1 p2 k = real k"
proof (induction k)
  case 0
  show ?case by simp
next
  case (Suc k)
  then have a: "acc64 p1 p2 k = real k" and d: "pixelDiff p1 p2 k = 3 * 255" by simp_all
  have "fl (real (Suc k)) = real (Suc k)" using Suc.prems(1) by (rule fl_of_nat)
  then show ?case by (simp add: a d add.commute)
qed

lemma score64_error:
  assumes "0 < P" "P < 2 ^ 51"
  shows "\<bar>fl (acc64 p1 p2 P / real P) - (\<Sum>k < P. pixelDiff p1 p2 k) / (3 * 255 * real P)\<bar>
           \<le> (real P + 5) / 2 ^ 54"
    and "0 \<le> fl (acc64 p1 p2 P / real P)" and "fl (acc64 p1 p2 P / real P) \<le> 1"
proof -
  have p53: "P < 2 ^ 53" using assms(2) by (rule less_trans) simp
  define a where "a = acc64 p1 p2 P"
  define T where "T = (\<Sum>k < P. pixelDiff p1 p2 k) / (3 * 255)"
  define y where "y = a / real P"
  have P: "0 < real P" using assms(1) by simp
  have ab: "0 \<le> a" "a \<le> real P" using acc64_bounds [OF p53, of p1 p2] by (simp_all add: a_def)
  have yb: "0 \<le> y" "y \<le> 1" using ab P by (simp_all add: y_def)
  show "0 \<le> fl (acc64 p1 p2 P / real P)"
    using yb(1) unfolding y_def a_def by (rule fl_nonneg)
  have "fl y \<le> real_of_int 1" using yb by (intro fl_le_int) simp_all
  then show "fl (acc64 p1 p2 P / real P) \<le> 1" by (simp add: y_def a_def)
  have z: "y = 0 \<or> 2 powi (- 1022) \<le> y"
  proof (cases "a = 0")
    case True
    then show ?thesis by (simp add: y_def)
  next
    case False
    then have lo: "2 powi (- 10) \<le> a" using acc64_normal [OF p53, of p1 p2] by (simp add: a_def)
    have "P \<le> 2 ^ 51" using assms(2) by simp
    then have "real P \<le> real (2 ^ 51)" by (simp only: of_nat_le_iff)
    then have "2 powi (- 61) * real P \<le> 2 powi (- 61) * 2 ^ 51" by (intro mult_left_mono) simp_all
    also have "\<dots> = 2 powi (- 10)" by simp
    finally have "2 powi (- 61) * real P \<le> a" using lo by (rule order_trans)
    then have "2 powi (- 61) \<le> y" using P by (simp add: y_def pos_le_divide_eq)
    with small_pow(1) have "2 powi (- 1022) \<le> y" by (rule order_trans)
    then show ?thesis ..
  qed
  have "y \<le> real 1" using yb(2) by simp
  then have "y < 2 powi 1024" by (rule below_pow) simp
  with z have "\<bar>fl y - y\<bar> \<le> y / 2 ^ 53" by (rule fl_error0)
  moreover have "y / 2 ^ 53 \<le> 1 / 2 ^ 53" using yb(2) by (intro divide_right_mono) simp_all
  ultimately have e1: "\<bar>fl y - y\<bar> \<le> 1 / 2 ^ 53" by (rule order_trans)
  have "\<bar>a - T\<bar> \<le> real P * (real P + 3) / 2 ^ 54"
    using acc64_error [OF p53, of p1 p2] by (simp add: a_def T_def)
  then have "\<bar>a - T\<bar> / real P \<le> real P * (real P + 3) / 2 ^ 54 / real P"
    using P by (intro divide_right_mono) simp_all
  also have "\<dots> = (real P + 3) / 2 ^ 54" using P by simp
  finally have "\<bar>a - T\<bar> / real P \<le> (real P + 3) / 2 ^ 54" .
  moreover have "\<bar>y - T / real P\<bar> = \<bar>a - T\<bar> / real P"
    using P by (simp add: y_def flip: diff_divide_distrib)
  ultimately have e2: "\<bar>y - T / real P\<bar> \<le> (real P + 3) / 2 ^ 54" by simp
  have "\<bar>fl y - T / real P\<bar> \<le> \<bar>fl y - y\<bar> + \<bar>y - T / real P\<bar>" by linarith
  also have "\<dots> \<le> 1 / 2 ^ 53 + (real P + 3) / 2 ^ 54" using e1 e2 by (rule add_mono)
  also have "\<dots> = (real P + 5) / 2 ^ 54" by (simp add: field_simps)
  finally have "\<bar>fl y - T / real P\<bar> \<le> (real P + 5) / 2 ^ 54" .
  moreover have "T / real P = (\<Sum>k < P. pixelDiff p1 p2 k) / (3 * 255 * real P)"
    by (simp add: T_def)
  ultimately show "\<bar>fl (acc64 p1 p2 P / real P) - (\<Sum>k < P. pixelDiff p1 p2 k) / (3 * 255 * real P)\<bar>
           \<le> (real P + 5) / 2 ^ 54"
    by (simp only: y_def a_def)
qed

text \<open>
  Claim C5, amended. For two RGBA buffers of the same size with \<open>P \<ge> 1\<close> pixels
  (\<open>P < 2^51\<close>) the differencer returns the binary64 number obtained by adding, pixel by
  pixel, the rounded quotient \<open>(|\<Delta>r| + |\<Delta>g| + |\<Delta>b|) / (3 \<cdot> 255)\<close> to a running total, every
  sum rounded, and dividing the total by \<open>P\<close>; the alpha channel does not enter. The result
  differs from \<open>(\<Sum> |\<Delta>r| + |\<Delta>g| + |\<Delta>b|) / (3 \<cdot> 255 \<cdot> P)\<close> by at most \<open>(P + 5) / 2^54\<close>;
  it lies in \<open>[0, 1]\<close>, it is \<open>0\<close> for identical buffers and \<open>1\<close> for an all-black buffer
  against an all-white one.
\<close>

theorem differencer_formula64:
  assumes "length pixels1 = 4 * P" and "length pixels2 = 4 * P" and "0 < P" and "P < 2 ^ 51"
  shows "\<exists>score. calculateFrameDifference64 pixels1 pixels2 = Finite score
           \<and> score = fl (acc64 pixels1 pixels2 P / real P)
           \<and> \<bar>score - (\<Sum>k < P. pixelDiff pixels1 pixels2 k) / (3 * 255 * real P)\<bar>
                \<le> (real P + 5) / 2 ^ 54
           \<and> 0 \<le> score \<and> score \<le> 1
           \<and> (pixels1 = pixels2 \<longrightarrow> score = 0)
           \<and> ((\<forall>k < P. \<forall>c < 3. channel pixels1 k c = 0 \<and> channel pixels2 k c = 255)
                \<longrightarrow> score = 1)"
proof -
  define score where "score = fl (acc64 pixels1 pixels2 P / real P)"
  have p53: "P < 2 ^ 53" using assms(4) by (rule less_trans) simp
  have "4 * P < 4 * 2 ^ 51" using assms(4) by simp
  then have "4 * P < 2 ^ 53" by simp
  then have eq: "calculateFrameDifference64 pixels1 pixels2 = Finite score"
    unfolding score_def using assms(1-3) by (intro calculateFrameDifference64_acc) simp_all
  note b = score64_error [OF assms(3,4), of pixels1 pixels2]
  have same: "score = 0" if "pixels1 = pixels2"
  proof -
    have "acc64 pixels1 pixels2 P = 0" using that by (intro acc64_zero) (simp add: pixelDiff_def)
    then show ?thesis by (simp add: score_def)
  qed
  have far: "score = 1"
    if bw: "\<forall>k < P. \<forall>c < 3. channel pixels1 k c = 0 \<and> channel pixels2 k c = 255"
  proof -
    have "pixelDiff pixels1 pixels2 k = 3 * 255" if "k < P" for k
    proof -
      have "channel pixels1 k c = 0 \<and> channel pixels2 k c = 255" if "c < 3" for c
        using bw \<open>k < P\<close> that by blast
      from this [of 0] this [of 1] this [of 2] show ?thesis
        by (simp add: pixelDiff_def)
    qed
    then have "acc64 pixels1 pixels2 P = real P" using p53 by (intro acc64_full) simp_all
    then show ?thesis using assms(3) by (simp add: score_def)
  qed
  from eq b same far show ?thesis unfolding score_def by blast
qed

theorem differencer_formula64_witness:
  "calculateFrameDifference64 [0, 0, 0, 255] [255, 255, 255, 255] = Finite 1
   \<and> calculateFrameDifference64 [7, 8, 9, 255] [7, 8, 9, 255] = Finite 0"
proof -
  have c: "channel [0, 0, 0, 255] 0 c = 0 \<and> channel [255, 255, 255, 255] 0 c = 255"
    if "c < 3" for c
  proof -
    from that have "c = 0 \<or> c = 1 \<or> c = 2" by auto
    then show ?thesis by (auto simp: channel_def)
  qed
  have "calculateFrameDifference64 [0, 0, 0, 255] [255, 255, 255, 255] = Finite 1"
    using differencer_formula64 [of "[0, 0, 0, 255]" 1 "[255, 255, 255, 255]"] c by auto
  moreover have "calculateFrameDifference64 [7, 8, 9, 255] [7, 8, 9, 255] = Finite 0"
    using differencer_formula64 [of "[7, 8, 9, 255]" 1 "[7, 8, 9, 255]"] by auto
  ultimately show ?thesis by simp
qed

text \<open>
  Claim C5, as stated, asks for exactly \<open>(\<Sum> |\<Delta>r| + |\<Delta>g| + |\<Delta>b|) / (3 \<cdot> 255 \<cdot> P)\<close>. For
  the two four-pixel buffers \<open>demoRasterA\<close> and \<open>demoRasterB\<close> that quotient is \<open>1/2\<close>, a
  binary64 number, and the differencer returns \<open>9007199254740991 / 2^54\<close> (printed
  \<^verbatim>\<open>0.49999999999999994\<close>).
\<close>

theorem differencer_exact_counterexample:
  "length demoRasterA = 4 * 4 \<and> length demoRasterB = 4 * 4
   \<and> calculateFrameDifference64 demoRasterA demoRasterB = Finite (9007199254740991 / 2 ^ 54)
   \<and> (\<Sum>k < 4. pixelDiff demoRasterA demoRasterB k) / (3 * 255 * real 4) = 1 / 2
   \<and> (9007199254740991 / 2 ^ 54 :: real) \<noteq> 1 / 2"
proof -
  have d: "pixelDiff demoRasterA demoRasterB 0 = 0" "pixelDiff demoRasterA demoRasterB 1 = 765"
    "pixelDiff demoRasterA demoRasterB 2 = 705" "pixelDiff demoRasterA demoRasterB 3 = 60"
    by (simp_all add: pixelDiff_def channel_def demoRasterA_def demoRasterB_def)
  have d': "pixelDiff demoRasterA demoRasterB (Suc 0) = 765"
    "pixelDiff demoRasterA demoRasterB (Suc (Suc 0)) = 705"
    "pixelDiff demoRasterA demoRasterB (Suc (Suc (Suc 0))) = 60"
    using d by (simp_all add: eval_nat_numeral)
  have acc: "acc64 demoRasterA demoRasterB 4 = 9007199254740991 / 2 ^ 52"
    by (simp add: eval_nat_numeral d d' fl_def expo.simps round_even_def Let_def)
  have a3: "fl (9007199254740991 / 2 ^ 52 / 4) = 9007199254740991 / 2 ^ 54"
    by (simp add: fl_def expo.simps round_even_def Let_def)
  have "calculateFrameDifference64 demoRasterA demoRasterB
      = Finite (fl (acc64 demoRasterA demoRasterB 4 / real 4))"
    by (rule calculateFrameDifference64_acc) (simp_all add: demoRasterA_def demoRasterB_def)
  then have c: "calculateFrameDifference64 demoRasterA demoRasterB = Finite (9007199254740991 / 2 ^ 54)"
    using a3 by (simp add: acc)
  have s: "(\<Sum>k < 4. pixelDiff demoRasterA demoRasterB k) / (3 * 255 * real 4) = 1 / 2"
    by (simp add: eval_nat_numeral d d')
  show ?thesis using c s by (simp add: demoRasterA_def demoRasterB_def)
qed

end
